theory Spec2Isabelle
  imports Main "HOL-Library.Log_Nat" "HOL-Library.AList"
begin

section \<open>Python values\<close>

text \<open>
  A Python \<open>str\<close> is a sequence of Unicode code points; it is modelled as a list of
  natural numbers, one per code point, so that \<open>len\<close> is \<open>length\<close>. \<open>ustr\<close> turns an
  ASCII literal into such a list.
\<close>

type_synonym pystr = "nat list"

definition ustr :: "string \<Rightarrow> pystr" where
  "ustr s = map of_char s"

datatype exn = ValueError | ZeroDivisionError | DependencyFailure

datatype ipkind = IPv4Address | IPv6Address

text \<open>
  The parts of the Python runtime that are tables or separate libraries are parameters:
  the Unicode character database beyond ASCII (the fields are only consulted for code
  points from 128 on; the ASCII range is written out below), NFKC normalisation and
  \<open>ipaddress.ip_address\<close> (\<open>None\<close> when it raises \<open>ValueError\<close>). \<open>uc_lower s i\<close>
  is the lower-casing of the character at index \<open>i\<close> of \<open>s\<close>, which may be several
  characters and may depend on the neighbours.
\<close>

record pylib =
  uc_isalpha :: "nat \<Rightarrow> bool"
  uc_isdecimal :: "nat \<Rightarrow> bool"
  uc_isdigit :: "nat \<Rightarrow> bool"
  uc_isnumeric :: "nat \<Rightarrow> bool"
  uc_isspace :: "nat \<Rightarrow> bool"
  uc_lower :: "pystr \<Rightarrow> nat \<Rightarrow> pystr"
  nfkc :: "pystr \<Rightarrow> pystr"
  ip_address :: "pystr \<Rightarrow> ipkind option"

definition ascii_lib :: pylib where
  "ascii_lib = \<lparr> uc_isalpha = (\<lambda>c. False), uc_isdecimal = (\<lambda>c. False),
     uc_isdigit = (\<lambda>c. False), uc_isnumeric = (\<lambda>c. False), uc_isspace = (\<lambda>c. False),
     uc_lower = (\<lambda>s i. [s ! i]), nfkc = (\<lambda>s. s), ip_address = (\<lambda>s. None) \<rparr>"

subsection \<open>Character classes\<close>

definition isascii :: "nat \<Rightarrow> bool" where
  "isascii c = (c < 128)"

definition isalpha :: "pylib \<Rightarrow> nat \<Rightarrow> bool" where
  "isalpha L c = (if c < 128 then (65 \<le> c \<and> c \<le> 90) \<or> (97 \<le> c \<and> c \<le> 122)
                  else uc_isalpha L c)"

definition isdecimal :: "pylib \<Rightarrow> nat \<Rightarrow> bool" where
  "isdecimal L c = (if c < 128 then 48 \<le> c \<and> c \<le> 57 else uc_isdecimal L c)"

definition isdigit :: "pylib \<Rightarrow> nat \<Rightarrow> bool" where
  "isdigit L c = (if c < 128 then 48 \<le> c \<and> c \<le> 57 else uc_isdigit L c)"

definition isnumeric :: "pylib \<Rightarrow> nat \<Rightarrow> bool" where
  "isnumeric L c = (if c < 128 then 48 \<le> c \<and> c \<le> 57 else uc_isnumeric L c)"

definition isalnum :: "pylib \<Rightarrow> nat \<Rightarrow> bool" where
  "isalnum L c = (isalpha L c \<or> isdecimal L c \<or> isdigit L c \<or> isnumeric L c)"

definition isspace :: "pylib \<Rightarrow> nat \<Rightarrow> bool" where
  "isspace L c = (if c < 128 then (9 \<le> c \<and> c \<le> 13) \<or> (28 \<le> c \<and> c \<le> 32)
                  else uc_isspace L c)"

subsection \<open>String methods\<close>

definition lower :: "pylib \<Rightarrow> pystr \<Rightarrow> pystr" where
  "lower L s = concat (map (\<lambda>i. let c = s ! i in
       if c < 128 then [if 65 \<le> c \<and> c \<le> 90 then c + 32 else c] else uc_lower L s i)
     [0..<length s])"

definition strip :: "pylib \<Rightarrow> pystr \<Rightarrow> pystr" where
  "strip L s = rev (dropWhile (isspace L) (rev (dropWhile (isspace L) s)))"

definition startswith :: "pystr \<Rightarrow> pystr \<Rightarrow> bool" where
  "startswith s p = (take (length p) s = p)"

fun str_in :: "pystr \<Rightarrow> pystr \<Rightarrow> bool" where
  "str_in sub [] = (sub = [])"
| "str_in sub (c # cs) = (startswith (c # cs) sub \<or> str_in sub cs)"

definition count_char :: "nat \<Rightarrow> pystr \<Rightarrow> int" where
  "count_char c s = int (length (filter (\<lambda>x. x = c) s))"

definition count_if :: "(nat \<Rightarrow> bool) \<Rightarrow> pystr \<Rightarrow> int" where
  "count_if P s = int (length (filter P s))"

text \<open>\<open>s.find(c)\<close> and \<open>s.rfind(c)\<close> for a single character; \<open>None\<close> stands for \<open>-1\<close>.\<close>

definition str_find :: "nat \<Rightarrow> pystr \<Rightarrow> nat option" where
  "str_find c s = (if c \<in> set s then Some (length (takeWhile (\<lambda>x. x \<noteq> c) s)) else None)"

definition str_find_from :: "nat \<Rightarrow> pystr \<Rightarrow> nat \<Rightarrow> nat option" where
  "str_find_from c s start = map_option (\<lambda>i. i + start) (str_find c (drop start s))"

definition str_rfind :: "nat \<Rightarrow> pystr \<Rightarrow> nat option" where
  "str_rfind c s = (if c \<in> set s
     then Some (length s - 1 - length (takeWhile (\<lambda>x. x \<noteq> c) (rev s))) else None)"

definition partition_str :: "nat \<Rightarrow> pystr \<Rightarrow> pystr \<times> pystr \<times> pystr" where
  "partition_str c s = (case str_find c s of
       None \<Rightarrow> (s, [], [])
     | Some i \<Rightarrow> (take i s, [c], drop (i + 1) s))"

definition rpartition_str :: "nat \<Rightarrow> pystr \<Rightarrow> pystr \<times> pystr \<times> pystr" where
  "rpartition_str c s = (case str_rfind c s of
       None \<Rightarrow> ([], [], s)
     | Some i \<Rightarrow> (take i s, [c], drop (i + 1) s))"

text \<open>\<open>s.split(c)\<close> for a single-character separator.\<close>

fun split_on :: "nat \<Rightarrow> pystr \<Rightarrow> pystr list" where
  "split_on c [] = [[]]"
| "split_on c (x # xs) =
     (if x = c then [] # split_on c xs
      else (case split_on c xs of [] \<Rightarrow> [[x]] | h # t \<Rightarrow> (x # h) # t))"

section \<open>Floating point\<close>

text \<open>
  A Python \<open>float\<close> is an IEEE 754 binary64 number. A finite float is modelled by the
  rational number it denotes, and every operation rounds its exact result to the nearest
  number with a 53-bit significand, ties to even, with gradual underflow below
  \<open>2^-1022\<close>. Overflow is not modelled: the quotients, products and sums formed by the
  program from string lengths and counts stay far below \<open>2^1024\<close>.
\<close>

definition pow2 :: "int \<Rightarrow> rat" where
  "pow2 e = (if 0 \<le> e then 2 ^ nat e else 1 / 2 ^ nat (- e))"

definition float_exponent :: "rat \<Rightarrow> int" where
  "float_exponent q = (let (a, b) = quotient_of q; d = bitlen a - bitlen b
                        in if pow2 d \<le> q then d else d - 1)"

definition round_half_even :: "rat \<Rightarrow> int" where
  "round_half_even x = (let n = \<lfloor>x\<rfloor>; r = x - of_int n
     in if r < 1 / 2 then n else if 1 / 2 < r then n + 1 else if even n then n else n + 1)"

definition to_double :: "rat \<Rightarrow> rat" where
  "to_double q = (if q = 0 then 0
     else let e = max (float_exponent \<bar>q\<bar>) (- 1022); u = pow2 (e - 52)
          in sgn q * of_int (round_half_even (\<bar>q\<bar> / u)) * u)"

text \<open>\<open>a / b\<close> on two Python ints: the correctly rounded quotient, or \<open>ZeroDivisionError\<close>.\<close>

definition int_truediv :: "int \<Rightarrow> int \<Rightarrow> exn + rat" where
  "int_truediv a b = (if b = 0 then Inl ZeroDivisionError
                      else Inr (to_double (of_int a / of_int b)))"

definition float_of_int :: "int \<Rightarrow> rat" where
  "float_of_int n = to_double (of_int n)"

definition float_mul :: "rat \<Rightarrow> rat \<Rightarrow> rat" where
  "float_mul x y = to_double (x * y)"

definition float_add :: "rat \<Rightarrow> rat \<Rightarrow> rat" where
  "float_add x y = to_double (x + y)"

text \<open>\<open>round(x, ndigits)\<close> on a float: round half to even on the exact value, then back to a float.\<close>

definition py_round :: "rat \<Rightarrow> nat \<Rightarrow> rat" where
  "py_round x ndigits = to_double (of_int (round_half_even (x * 10 ^ ndigits)) / 10 ^ ndigits)"

section \<open>The standard library functions used by the program\<close>

subsection \<open>The regular expression of \<open>has_ip\<close>\<close>

text \<open>
  \<open>re.search(r'\d{1,3}\.\d{1,3}\.\d{1,3}\.\d{1,3}', url)\<close>. On a \<open>str\<close> pattern \<open>\d\<close>
  matches the Unicode decimal digits. A matcher maps the list of positions reached so far
  (each given by the rest of the string) to the positions reachable after its piece of the
  pattern, so that all backtracking alternatives are followed.
\<close>

definition re_digits13 :: "pylib \<Rightarrow> pystr list \<Rightarrow> pystr list" where
  "re_digits13 L rs = concat (map (\<lambda>r. concat (map (\<lambda>k.
       if k \<le> length r \<and> list_all (isdecimal L) (take k r) then [drop k r] else [])
     [1, 2, 3])) rs)"

definition re_dot :: "pystr list \<Rightarrow> pystr list" where
  "re_dot rs = concat (map (\<lambda>r. case r of [] \<Rightarrow> [] | c # t \<Rightarrow> if c = 46 then [t] else []) rs)"

definition re_match_ip :: "pylib \<Rightarrow> pystr \<Rightarrow> bool" where
  "re_match_ip L s = (re_digits13 L (re_dot (re_digits13 L (re_dot (re_digits13 L (re_dot
       (re_digits13 L [s])))))) \<noteq> [])"

fun re_search_ip :: "pylib \<Rightarrow> pystr \<Rightarrow> bool" where
  "re_search_ip L [] = re_match_ip L []"
| "re_search_ip L (c # cs) = (re_match_ip L (c # cs) \<or> re_search_ip L cs)"

subsection \<open>\<open>urllib.parse.urlparse\<close>\<close>

text \<open>
  \<open>urlparse(url)\<close> of CPython 3.11 on a \<open>str\<close>, with the default arguments
  \<open>scheme=''\<close> and \<open>allow_fragments=True\<close>. It raises \<open>ValueError\<close> on unbalanced or
  invalid bracketed hosts and on a host that gains a delimiter under NFKC normalisation.
\<close>

record parse_result =
  pr_scheme :: pystr
  pr_netloc :: pystr
  pr_path :: pystr
  pr_params :: pystr
  pr_query :: pystr
  pr_fragment :: pystr

definition is_scheme_char :: "nat \<Rightarrow> bool" where
  "is_scheme_char c = ((97 \<le> c \<and> c \<le> 122) \<or> (65 \<le> c \<and> c \<le> 90) \<or> (48 \<le> c \<and> c \<le> 57)
                       \<or> c = 43 \<or> c = 45 \<or> c = 46)"

definition uses_params :: "pystr list" where
  "uses_params = map ustr [[], ''ftp'', ''hdl'', ''prospero'', ''http'', ''imap'', ''https'',
     ''shttp'', ''rtsp'', ''rtsps'', ''rtspu'', ''sip'', ''sips'', ''mms'', ''sftp'', ''tel'']"

definition splitnetloc :: "pystr \<Rightarrow> nat \<Rightarrow> pystr \<times> pystr" where
  "splitnetloc url start =
     (let delim = foldl (\<lambda>d c. case str_find_from c url start of
                                   None \<Rightarrow> d | Some w \<Rightarrow> min d w) (length url) [47, 63, 35]
      in (take (delim - start) (drop start url), drop delim url))"

definition is_hex_char :: "nat \<Rightarrow> bool" where
  "is_hex_char c = ((97 \<le> c \<and> c \<le> 102) \<or> (65 \<le> c \<and> c \<le> 70) \<or> (48 \<le> c \<and> c \<le> 57))"

text \<open>\<open>re.match(r"\Av[a-fA-F0-9]+\..+\Z", hostname)\<close>: \<open>.\<close> matches all but a newline.\<close>

definition ipvfuture_match :: "pystr \<Rightarrow> bool" where
  "ipvfuture_match h = (case h of [] \<Rightarrow> False | c # t \<Rightarrow> c = 118 \<and>
     (let hex = takeWhile is_hex_char t; rest = dropWhile is_hex_char t
      in hex \<noteq> [] \<and> (case rest of [] \<Rightarrow> False | d # ys \<Rightarrow> d = 46 \<and> ys \<noteq> [] \<and> 10 \<notin> set ys)))"

definition check_bracketed_host :: "pylib \<Rightarrow> pystr \<Rightarrow> exn + unit" where
  "check_bracketed_host L hostname =
     (if startswith hostname (ustr ''v'')
      then (if \<not> ipvfuture_match hostname then Inl ValueError else Inr ())
      else (case ip_address L hostname of
              None \<Rightarrow> Inl ValueError
            | Some IPv4Address \<Rightarrow> Inl ValueError
            | Some IPv6Address \<Rightarrow> Inr ()))"

definition checknetloc :: "pylib \<Rightarrow> pystr \<Rightarrow> exn + unit" where
  "checknetloc L netloc =
     (if netloc = [] \<or> list_all isascii netloc then Inr ()
      else let n = filter (\<lambda>c. c \<noteq> 64 \<and> c \<noteq> 58 \<and> c \<noteq> 35 \<and> c \<noteq> 63) netloc;
               netloc2 = nfkc L n
           in if n = netloc2 then Inr ()
              else if list_ex (\<lambda>c. c \<in> set netloc2) [47, 63, 35, 64, 58] then Inl ValueError
              else Inr ())"

definition split_scheme :: "pylib \<Rightarrow> pystr \<Rightarrow> pystr \<times> pystr" where
  "split_scheme L url =
     (case str_find 58 url of
        None \<Rightarrow> ([], url)
      | Some i \<Rightarrow>
          if 0 < i \<and> isascii (hd url) \<and> isalpha L (hd url) \<and> list_all is_scheme_char (take i url)
          then (lower L (take i url), drop (i + 1) url)
          else ([], url))"

definition check_brackets :: "pylib \<Rightarrow> pystr \<Rightarrow> exn + unit" where
  "check_brackets L netloc =
     (if (91 \<in> set netloc \<and> 93 \<notin> set netloc) \<or> (93 \<in> set netloc \<and> 91 \<notin> set netloc)
      then Inl ValueError
      else if 91 \<in> set netloc \<and> 93 \<in> set netloc
      then check_bracketed_host L (fst (partition_str 93 (snd (snd (partition_str 91 netloc)))))
      else Inr ())"

definition split_first :: "nat \<Rightarrow> pystr \<Rightarrow> pystr \<times> pystr" where
  "split_first c url = (if c \<in> set url
     then (fst (partition_str c url), snd (snd (partition_str c url))) else (url, []))"

definition urlsplit :: "pylib \<Rightarrow> pystr \<Rightarrow> exn + (pystr \<times> pystr \<times> pystr \<times> pystr \<times> pystr)" where
  "urlsplit L url0 =
     (let url1 = dropWhile (\<lambda>c. c \<le> 32) url0;
          url2 = filter (\<lambda>c. c \<noteq> 9 \<and> c \<noteq> 13 \<and> c \<noteq> 10) url1;
          (scheme, url3) = split_scheme L url2;
          has_netloc = (take 2 url3 = ustr ''//'');
          (netloc, url4) = (if has_netloc then splitnetloc url3 2 else ([], url3))
      in (case (if has_netloc then check_brackets L netloc else Inr ()) of
            Inl e \<Rightarrow> Inl e
          | Inr u \<Rightarrow>
              (let (url5, fragment) = split_first 35 url4;
                   (url6, query) = split_first 63 url5
               in (case checknetloc L netloc of
                     Inl e \<Rightarrow> Inl e
                   | Inr v \<Rightarrow> Inr (scheme, netloc, url6, query, fragment)))))"

definition splitparams :: "pystr \<Rightarrow> pystr \<times> pystr" where
  "splitparams url =
     (if 47 \<in> set url
      then (case str_find_from 59 url (case str_rfind 47 url of None \<Rightarrow> 0 | Some j \<Rightarrow> j) of
              None \<Rightarrow> (url, [])
            | Some i \<Rightarrow> (take i url, drop (i + 1) url))
      else (case str_find 59 url of
              None \<Rightarrow> (butlast url, url)
            | Some i \<Rightarrow> (take i url, drop (i + 1) url)))"

definition urlparse :: "pylib \<Rightarrow> pystr \<Rightarrow> exn + parse_result" where
  "urlparse L url =
     (case urlsplit L url of
        Inl e \<Rightarrow> Inl e
      | Inr (scheme, netloc, path, query, fragment) \<Rightarrow>
          let (path', params) = (if scheme \<in> set uses_params \<and> 59 \<in> set path
                                 then splitparams path else (path, []))
          in Inr \<lparr> pr_scheme = scheme, pr_netloc = netloc, pr_path = path',
                   pr_params = params, pr_query = query, pr_fragment = fragment \<rparr>)"

text \<open>The \<open>hostname\<close> property of the parse result: \<open>None\<close> when the host is empty.\<close>

definition hostname_of :: "pylib \<Rightarrow> parse_result \<Rightarrow> pystr option" where
  "hostname_of L p =
     (let hostinfo = snd (snd (rpartition_str 64 (pr_netloc p)));
          (have_open_br, bracketed) = snd (partition_str 91 hostinfo);
          hostname = (if have_open_br \<noteq> [] then fst (partition_str 93 bracketed)
                      else fst (partition_str 58 hostinfo))
      in if hostname = [] then None
         else let (h, percent, zone) = partition_str 37 hostname
              in Some (lower L h @ percent @ zone))"

section \<open>Feature extraction (\<open>extract_features\<close>)\<close>

record features =
  url_length :: int
  hostname_length :: int
  path_length :: int
  num_dots :: int
  num_hyphens :: int
  num_underscores :: int
  num_slashes :: int
  num_at :: int
  num_question :: int
  num_equals :: int
  num_ampersand :: int
  num_percent :: int
  num_digits :: int
  has_ip :: int
  has_https :: int
  has_www :: int
  has_at_sign :: int
  has_double_slash :: int
  has_hex_encoding :: int
  num_subdomains :: int
  has_suspicious_word :: int
  digit_ratio :: rat
  letter_ratio :: rat
  special_ratio :: rat

definition suspicious_words :: "pystr list" where
  "suspicious_words = map ustr [''login'', ''secure'', ''account'', ''update'', ''bank'',
     ''verify'', ''confirm'', ''paypal'', ''signin'', ''ebay'', ''admin'', ''password'']"

text \<open>
  The \<open>try\<close> block at the head of \<open>extract_features\<close>: the hostname and the path of the
  URL, after \<open>http://\<close> is put in front of a URL that does not start with \<open>http\<close>; the
  bare \<open>except\<close> turns every exception of the parser into an empty hostname and the URL
  itself as path.
\<close>

definition parse_url :: "pylib \<Rightarrow> pystr \<Rightarrow> pystr \<times> pystr" where
  "parse_url L url =
     (case urlparse L (if startswith url (ustr ''http'') then url else ustr ''http://'' @ url) of
        Inl e \<Rightarrow> ([], url)
      | Inr parsed \<Rightarrow>
          ((case hostname_of L parsed of None \<Rightarrow> [] | Some h \<Rightarrow> if h = [] then [] else h),
           (if pr_path parsed = [] then [] else pr_path parsed)))"

definition extract_features :: "pylib \<Rightarrow> pystr \<Rightarrow> exn + features" where
  "extract_features L url =
     (let (hostname, path) = parse_url L url
      in case int_truediv (count_if (isdigit L) url) (max (int (length url)) 1) of
           Inl e \<Rightarrow> Inl e
         | Inr dr \<Rightarrow>
       (case int_truediv (count_if (isalpha L) url) (max (int (length url)) 1) of
           Inl e \<Rightarrow> Inl e
         | Inr lr \<Rightarrow>
       (case int_truediv (count_if (\<lambda>c. \<not> isalnum L c) url) (max (int (length url)) 1) of
           Inl e \<Rightarrow> Inl e
         | Inr sr \<Rightarrow>
           Inr \<lparr> url_length = int (length url),
                 hostname_length = int (length hostname),
                 path_length = int (length path),
                 num_dots = count_char 46 url,
                 num_hyphens = count_char 45 url,
                 num_underscores = count_char 95 url,
                 num_slashes = count_char 47 url,
                 num_at = count_char 64 url,
                 num_question = count_char 63 url,
                 num_equals = count_char 61 url,
                 num_ampersand = count_char 38 url,
                 num_percent = count_char 37 url,
                 num_digits = count_if (isdigit L) url,
                 has_ip = (if re_search_ip L url then 1 else 0),
                 has_https = (if startswith url (ustr ''https'') then 1 else 0),
                 has_www = (if str_in (ustr ''www.'') url then 1 else 0),
                 has_at_sign = (if str_in (ustr ''@'') url then 1 else 0),
                 has_double_slash = (if str_in (ustr ''//'') (drop 7 url) then 1 else 0),
                 has_hex_encoding = (if str_in (ustr ''%'') url then 1 else 0),
                 num_subdomains = (if hostname \<noteq> [] then int (length (split_on 46 hostname)) - 2
                                   else 0),
                 has_suspicious_word =
                   (if list_ex (\<lambda>w. str_in w (lower L url)) suspicious_words then 1 else 0),
                 digit_ratio = dr,
                 letter_ratio = lr,
                 special_ratio = sr \<rparr>)))"

section \<open>Threat scores (\<open>get_dna_scores\<close>)\<close>

record dna =
  length_risk :: rat
  special_chars :: rat
  suspicious_kw :: rat
  ip_address_score :: rat
  subdomain_depth :: rat
  digit_density :: rat
  hyphen_abuse :: rat
  encoding_tricks :: rat

text \<open>
  The dict \<open>features\<close> is passed by reference; the second component of the result is the
  dict as the call leaves it.
\<close>

definition get_dna_scores :: "pystr \<Rightarrow> features \<Rightarrow> (exn + dna) \<times> features" where
  "get_dna_scores url f =
     ((case int_truediv (int (length url)) 150 of
         Inl e \<Rightarrow> Inl e
       | Inr lr \<Rightarrow>
      (case int_truediv (max (num_subdomains f) 0) 4 of
         Inl e \<Rightarrow> Inl e
       | Inr sd \<Rightarrow>
      (case int_truediv (num_hyphens f) 6 of
         Inl e \<Rightarrow> Inl e
       | Inr ha \<Rightarrow>
         Inr \<lparr> length_risk = min lr 1,
               special_chars = min (float_mul (special_ratio f) 3) 1,
               suspicious_kw = float_of_int (has_suspicious_word f),
               ip_address_score = float_of_int (has_ip f),
               subdomain_depth = min sd 1,
               digit_density = min (float_mul (digit_ratio f) 4) 1,
               hyphen_abuse = min ha 1,
               encoding_tricks = float_of_int (has_hex_encoding f) \<rparr>))),
      f)"

section \<open>The request handlers\<close>

text \<open>
  The pickled classifier and label encoder are parameters. A call of the classifier may
  raise. \<open>inverse_transform\<close> is scikit-learn's \<open>LabelEncoder.inverse_transform\<close> on one
  index: the class at that index, or \<open>ValueError\<close> for an index outside \<open>classes_\<close>.
\<close>

record classifier =
  clf_predict :: "features \<Rightarrow> exn + int"
  clf_predict_proba :: "features \<Rightarrow> exn + rat list"
  le_classes :: "pystr list"

definition inverse_transform :: "classifier \<Rightarrow> int \<Rightarrow> exn + pystr" where
  "inverse_transform C i = (if 0 \<le> i \<and> i < int (length (le_classes C))
                            then Inr (le_classes C ! nat i) else Inl ValueError)"

definition py_max :: "rat list \<Rightarrow> exn + rat" where
  "py_max xs = (case xs of [] \<Rightarrow> Inl ValueError | x # ys \<Rightarrow> Inr (fold max ys x))"

text \<open>A dict built from key/value pairs in order: a repeated key keeps its place and takes the later value.\<close>

definition dict_of :: "('k \<times> 'v) list \<Rightarrow> ('k \<times> 'v) list" where
  "dict_of ps = foldl (\<lambda>d (k, v). AList.update k v d) [] ps"

datatype 'a outcome = Ok200 'a | Err400 string | Raised exn

record predict_response =
  p_url :: pystr
  p_prediction :: pystr
  p_probabilities :: "(pystr \<times> rat) list"
  p_dna :: dna
  p_confidence :: rat

record result_entry =
  r_url :: pystr
  r_prediction :: pystr
  r_confidence :: rat
  r_probabilities :: "(pystr \<times> rat) list"

record bulk_response =
  b_results :: "result_entry list"
  b_summary :: "(pystr \<times> int) list"
  b_total :: int

definition bind_exn :: "exn + 'a \<Rightarrow> ('a \<Rightarrow> exn + 'b) \<Rightarrow> exn + 'b" where
  "bind_exn m f = (case m of Inl e \<Rightarrow> Inl e | Inr x \<Rightarrow> f x)"

text \<open>The body of \<open>predict\<close> after the guard.\<close>

definition predict_body :: "pylib \<Rightarrow> classifier \<Rightarrow> pystr \<Rightarrow> exn + predict_response" where
  "predict_body L C url =
     bind_exn (extract_features L url) (\<lambda>features.
     bind_exn (clf_predict C features) (\<lambda>prediction.
     bind_exn (clf_predict_proba C features) (\<lambda>probabilities.
     bind_exn (inverse_transform C prediction) (\<lambda>predicted_class.
       let prob_dict = dict_of (zip (le_classes C) (map (\<lambda>p. py_round p 4) probabilities));
           (dna_result, features') = get_dna_scores url features
       in bind_exn dna_result (\<lambda>dna.
          bind_exn (py_max probabilities) (\<lambda>m.
            Inr \<lparr> p_url = url, p_prediction = predicted_class, p_probabilities = prob_dict,
                  p_dna = dna, p_confidence = py_round (float_mul m 100) 1 \<rparr>))))))"

text \<open>
  The handlers take the value of the request's key (\<open>None\<close> when the key is absent) and
  return the response together with the list of the URLs on which feature extraction and
  classification were started, in order. That list is not part of the response; it
  records what the handler ran.
\<close>

definition predict :: "pylib \<Rightarrow> classifier \<Rightarrow> pystr option \<Rightarrow> predict_response outcome \<times> pystr list" where
  "predict L C data_url =
     (let url = strip L (case data_url of None \<Rightarrow> [] | Some u \<Rightarrow> u)
      in if url = [] then (Err400 ''No URL provided'', [])
         else (case predict_body L C url of
                 Inl e \<Rightarrow> (Raised e, [url])
               | Inr r \<Rightarrow> (Ok200 r, [url])))"

text \<open>The body of the loop of \<open>bulk\<close> for one non-blank URL.\<close>

definition bulk_entry :: "pylib \<Rightarrow> classifier \<Rightarrow> pystr \<Rightarrow> exn + result_entry" where
  "bulk_entry L C url =
     bind_exn (extract_features L url) (\<lambda>features.
     bind_exn (clf_predict C features) (\<lambda>prediction.
     bind_exn (clf_predict_proba C features) (\<lambda>probs.
     bind_exn (inverse_transform C prediction) (\<lambda>pred_class.
     bind_exn (py_max probs) (\<lambda>m.
       Inr \<lparr> r_url = url, r_prediction = pred_class,
             r_confidence = py_round (float_mul m 100) 1,
             r_probabilities = dict_of (zip (le_classes C) (map (\<lambda>p. py_round p 4) probs)) \<rparr>)))))"

fun bulk_loop :: "pylib \<Rightarrow> classifier \<Rightarrow> pystr list \<Rightarrow> result_entry list \<Rightarrow> pystr list
                  \<Rightarrow> (exn + result_entry list) \<times> pystr list" where
  "bulk_loop L C [] results tr = (Inr results, tr)"
| "bulk_loop L C (u # us) results tr =
     (let url = strip L u
      in if url = [] then bulk_loop L C us results tr
         else (case bulk_entry L C url of
                 Inl e \<Rightarrow> (Inl e, tr @ [url])
               | Inr r \<Rightarrow> bulk_loop L C us (results @ [r]) (tr @ [url])))"

definition summary_of :: "classifier \<Rightarrow> result_entry list \<Rightarrow> (pystr \<times> int) list" where
  "summary_of C results =
     dict_of (map (\<lambda>c. (c, int (length (filter (\<lambda>r. r_prediction r = c) results)))) (le_classes C))"

definition bulk :: "pylib \<Rightarrow> classifier \<Rightarrow> pystr list option \<Rightarrow> bulk_response outcome \<times> pystr list" where
  "bulk L C data_urls =
     (let urls = (case data_urls of None \<Rightarrow> [] | Some us \<Rightarrow> us)
      in if urls = [] then (Err400 ''No URLs provided'', [])
         else if 500 < length urls then (Err400 ''Max 500 URLs per batch'', [])
         else (case bulk_loop L C urls [] [] of
                 (Inl e, tr) \<Rightarrow> (Raised e, tr)
               | (Inr results, tr) \<Rightarrow>
                   (Ok200 \<lparr> b_results = results, b_summary = summary_of C results,
                            b_total = int (length results) \<rparr>, tr)))"

text \<open>
  The entries of a batch that the specification keeps: each entry trimmed, the blank ones
  left out. The loop of \<open>bulk\<close> is compared with it below.
\<close>

definition surviving_urls :: "pylib \<Rightarrow> pystr list \<Rightarrow> pystr list" where
  "surviving_urls L urls = filter (\<lambda>u. u \<noteq> []) (map (strip L) urls)"

text \<open>A classifier with two classes, used to run the handlers on concrete requests.\<close>

definition stub_classifier :: classifier where
  "stub_classifier = \<lparr> clf_predict = (\<lambda>f. Inr (has_suspicious_word f)),
     clf_predict_proba = (\<lambda>f. Inr (if has_suspicious_word f = 1 then [1 / 4, 3 / 4] else [3 / 4, 1 / 4])),
     le_classes = [ustr ''benign'', ustr ''phishing''] \<rparr>"

section \<open>Properties of the rounding\<close>

lemma pow2_powi: "pow2 e = power_int 2 e"
  by (simp add: pow2_def power_int_def field_simps)

lemma pow2_pos: "0 < pow2 e"
  by (simp add: pow2_def)

lemma pow2_add: "pow2 (x + y) = pow2 x * pow2 y"
  by (simp add: pow2_powi power_int_add)

lemma pow2_nat: "pow2 (int n) = 2 ^ n"
  by (simp add: pow2_def)

lemma pow2_zero: "pow2 0 = 1"
  by (simp add: pow2_def)

lemma pow2_mono: "x \<le> y \<Longrightarrow> pow2 x \<le> pow2 y"
  by (simp add: pow2_powi power_int_increasing)

lemma pow2_strict_mono: "x < y \<Longrightarrow> pow2 x < pow2 y"
  by (simp add: pow2_powi power_int_strict_increasing)

lemma pow2_le_D: "pow2 x \<le> pow2 y \<Longrightarrow> x \<le> y"
  using pow2_strict_mono [of y x] by (cases "x \<le> y") auto

lemma pow2_less_D: "pow2 x < pow2 y \<Longrightarrow> x < y"
  using pow2_mono [of y x] by (cases "x < y") auto

lemma pow2_diff: "pow2 (x - y) = pow2 x / pow2 y"
proof -
  have "pow2 x = pow2 (x - y) * pow2 y"
    using pow2_add [of "x - y" y] by simp
  then show ?thesis
    using pow2_pos [of y] by simp
qed

lemma bitlen_pow2_bounds:
  assumes "0 < a"
  shows "pow2 (bitlen a - 1) \<le> of_int a" and "of_int a < pow2 (bitlen a)"
proof -
  have pos: "0 < bitlen a"
    using assms bitlen_eq_zero_iff [of a] bitlen_nonneg [of a] by linarith
  have b: "2 ^ nat (bitlen a - 1) \<le> a" "a < 2 ^ nat (bitlen a)"
    using bitlen_bounds [OF assms] by auto
  have "pow2 (bitlen a - 1) = of_int (2 ^ nat (bitlen a - 1))"
    using pos by (simp add: pow2_def)
  also have "\<dots> \<le> of_int a"
    using b(1) by (simp only: of_int_le_iff)
  finally show "pow2 (bitlen a - 1) \<le> of_int a" .
  have "(of_int a :: rat) < of_int (2 ^ nat (bitlen a))"
    using b(2) by (simp only: of_int_less_iff)
  also have "\<dots> = pow2 (bitlen a)"
    using pos by (simp add: pow2_def)
  finally show "of_int a < pow2 (bitlen a)" .
qed

lemma float_exponent_bounds:
  assumes "0 < q"
  shows "pow2 (float_exponent q) \<le> q \<and> q < pow2 (float_exponent q + 1)"
proof -
  obtain a b where ab: "quotient_of q = (a, b)"
    by (cases "quotient_of q")
  have b: "0 < b" using ab by (rule quotient_of_denom_pos)
  have q: "q = of_int a / of_int b" using ab by (rule quotient_of_div)
  have a: "0 < a"
    using assms b q by (simp add: zero_less_divide_iff)
  define d where "d = bitlen a - bitlen b"
  have lo: "pow2 (d - 1) < q"
  proof -
    have "pow2 (d - 1) = pow2 (bitlen a - 1) / pow2 (bitlen b)"
      unfolding d_def using pow2_diff [of "bitlen a - 1" "bitlen b"] by (simp add: algebra_simps)
    also have "\<dots> \<le> of_int a / pow2 (bitlen b)"
      using bitlen_pow2_bounds(1) [OF a] pow2_pos [of "bitlen b"] by (simp add: divide_right_mono)
    also have "\<dots> < of_int a / of_int b"
      using bitlen_pow2_bounds(2) [OF b] a b by (simp add: divide_strict_left_mono)
    finally show ?thesis using q by simp
  qed
  have hi: "q < pow2 (d + 1)"
  proof -
    have "q < pow2 (bitlen a) / of_int b"
      unfolding q using bitlen_pow2_bounds(2) [OF a] b by (simp add: divide_strict_right_mono)
    also have "\<dots> \<le> pow2 (bitlen a) / pow2 (bitlen b - 1)"
      using bitlen_pow2_bounds(1) [OF b] pow2_pos [of "bitlen a"] pow2_pos [of "bitlen b - 1"]
      by (simp add: divide_left_mono)
    also have "\<dots> = pow2 (d + 1)"
      unfolding d_def using pow2_diff [of "bitlen a" "bitlen b - 1"] by (simp add: algebra_simps)
    finally show ?thesis .
  qed
  have e: "float_exponent q = (if pow2 d \<le> q then d else d - 1)"
    by (simp add: float_exponent_def ab d_def Let_def)
  show ?thesis
  proof (cases "pow2 d \<le> q")
    case True
    then show ?thesis using e hi by simp
  next
    case False
    then show ?thesis using e lo by simp
  qed
qed

lemma round_half_even_err: "\<bar>of_int (round_half_even x) - x\<bar> \<le> 1 / 2"
proof -
  have "of_int \<lfloor>x\<rfloor> \<le> x" "x < of_int \<lfloor>x\<rfloor> + 1" by linarith+
  then show ?thesis
    by (auto simp: round_half_even_def Let_def)
qed

lemma round_half_even_ge: "of_int n \<le> x \<Longrightarrow> n \<le> round_half_even x"
proof -
  assume "of_int n \<le> x"
  then have "n \<le> \<lfloor>x\<rfloor>" by (simp add: le_floor_iff)
  then show ?thesis by (auto simp: round_half_even_def Let_def)
qed

lemma round_half_even_le: "x \<le> of_int n \<Longrightarrow> round_half_even x \<le> n"
proof -
  assume h: "x \<le> of_int n"
  show ?thesis
  proof (cases "x = of_int n")
    case True
    then show ?thesis by (simp add: round_half_even_def)
  next
    case False
    with h have "x < of_int n" by simp
    then have "\<lfloor>x\<rfloor> < n" by (simp add: floor_less_iff)
    then show ?thesis by (auto simp: round_half_even_def Let_def)
  qed
qed

lemma to_double_pos_eq:
  assumes "0 < q"
  shows "to_double q = of_int (round_half_even (q / pow2 (max (float_exponent q) (- 1022) - 52)))
                       * pow2 (max (float_exponent q) (- 1022) - 52)"
  using assms by (simp add: to_double_def Let_def)

lemma to_double_nonneg: "0 \<le> q \<Longrightarrow> 0 \<le> to_double q"
proof (cases "q = 0")
  case True
  then show ?thesis by (simp add: to_double_def)
next
  case False
  assume "0 \<le> q"
  with False have q: "0 < q" by simp
  define u where "u = pow2 (max (float_exponent q) (- 1022) - 52)"
  have u: "0 < u" unfolding u_def by (rule pow2_pos)
  have "of_int 0 \<le> q / u" using q u by simp
  then have "0 \<le> round_half_even (q / u)" by (rule round_half_even_ge)
  then show ?thesis
    using u unfolding to_double_pos_eq [OF q] u_def [symmetric] by simp
qed

lemma to_double_le_one:
  assumes "0 \<le> q" "q \<le> 1"
  shows "to_double q \<le> 1"
proof (cases "q = 0")
  case True
  then show ?thesis by (simp add: to_double_def)
next
  case False
  with assms have q: "0 < q" by simp
  define e where "e = max (float_exponent q) (- 1022)"
  define u where "u = pow2 (e - 52)"
  have u: "0 < u" unfolding u_def by (rule pow2_pos)
  have "pow2 (float_exponent q) \<le> pow2 0"
    using float_exponent_bounds [OF q] assms(2) by (simp add: pow2_zero)
  then have "float_exponent q \<le> 0" by (rule pow2_le_D)
  then have e: "e \<le> 0" by (simp add: e_def)
  have inv: "1 / u = of_int (2 ^ nat (52 - e))"
  proof -
    have "1 / u = pow2 (0 - (e - 52))"
      unfolding u_def pow2_diff by (simp add: pow2_zero)
    also have "\<dots> = pow2 (int (nat (52 - e)))" using e by simp
    finally show ?thesis by (simp only: pow2_nat of_int_power of_int_numeral)
  qed
  have "q / u \<le> 1 / u" using assms(2) u by (simp add: divide_right_mono)
  then have "round_half_even (q / u) \<le> 2 ^ nat (52 - e)"
    unfolding inv by (rule round_half_even_le)
  then have "(of_int (round_half_even (q / u)) :: rat) \<le> of_int (2 ^ nat (52 - e))"
    by (simp only: of_int_le_iff)
  then have "of_int (round_half_even (q / u)) * u \<le> (1 / u) * u"
    unfolding inv [symmetric] using u by (simp only: mult_le_cancel_right_pos)
  then show ?thesis
    using u unfolding to_double_pos_eq [OF q] e_def [symmetric] u_def [symmetric] by simp
qed

lemma to_double_ge_one:
  assumes "1 \<le> q"
  shows "1 \<le> to_double q"
proof -
  have q: "0 < q" using assms by simp
  define e where "e = max (float_exponent q) (- 1022)"
  define u where "u = pow2 (e - 52)"
  have u: "0 < u" unfolding u_def by (rule pow2_pos)
  have "pow2 0 < pow2 (float_exponent q + 1)"
    using float_exponent_bounds [OF q] assms by (simp add: pow2_zero)
  then have "0 < float_exponent q + 1" by (rule pow2_less_D)
  then have e: "e = float_exponent q" "0 \<le> e" by (simp_all add: e_def)
  have "(of_int (2 ^ 52) :: rat) = pow2 e / u"
    unfolding u_def pow2_diff using pow2_pos [of e] by (simp add: pow2_def)
  also have "\<dots> \<le> q / u"
    using float_exponent_bounds [OF q] u e(1) by (simp add: divide_right_mono)
  finally have "2 ^ 52 \<le> round_half_even (q / u)" by (rule round_half_even_ge)
  then have "(of_int (2 ^ 52) :: rat) \<le> of_int (round_half_even (q / u))"
    by (simp only: of_int_le_iff)
  then have "of_int (2 ^ 52) * u \<le> of_int (round_half_even (q / u)) * u"
    using u by (simp only: mult_le_cancel_right_pos)
  moreover have "of_int (2 ^ 52) * u = pow2 e"
    unfolding u_def pow2_diff by (simp add: pow2_def)
  moreover have "1 \<le> pow2 e" using pow2_mono [OF e(2)] by (simp add: pow2_zero)
  ultimately show ?thesis
    unfolding to_double_pos_eq [OF q] e_def [symmetric] u_def [symmetric] by linarith
qed

lemma to_double_err:
  assumes "0 \<le> q" "q \<le> 1"
  shows "\<bar>to_double q - q\<bar> \<le> 1 / 2 ^ 54"
proof (cases "q = 0 \<or> q = 1")
  case True
  then show ?thesis
  proof
    assume "q = 0" then show ?thesis by (simp add: to_double_def)
  next
    assume "q = 1"
    moreover have "to_double 1 = 1" by code_simp
    ultimately show ?thesis by simp
  qed
next
  case False
  with assms have q: "0 < q" "q < 1" by simp_all
  define e where "e = max (float_exponent q) (- 1022)"
  define u where "u = pow2 (e - 52)"
  have u: "0 < u" unfolding u_def by (rule pow2_pos)
  have "pow2 (float_exponent q) < pow2 0"
    using float_exponent_bounds [OF q(1)] q(2) by (simp add: pow2_zero)
  then have "float_exponent q < 0" by (rule pow2_less_D)
  then have e: "e \<le> - 1" by (simp add: e_def)
  have "u \<le> pow2 (- 53)" unfolding u_def using e by (intro pow2_mono) simp
  then have u53: "u \<le> 1 / 2 ^ 53" by (simp add: pow2_def)
  have "to_double q - q = (of_int (round_half_even (q / u)) - q / u) * u"
    using u unfolding to_double_pos_eq [OF q(1)] e_def [symmetric] u_def [symmetric]
    by (simp add: algebra_simps)
  then have "\<bar>to_double q - q\<bar> = \<bar>of_int (round_half_even (q / u)) - q / u\<bar> * u"
    using u by (simp add: abs_mult)
  also have "\<dots> \<le> (1 / 2) * u"
    using round_half_even_err [of "q / u"] u by (simp only: mult_le_cancel_right_pos)
  also have "\<dots> \<le> (1 / 2) * (1 / 2 ^ 53)"
    using u53 by simp
  finally show ?thesis by simp
qed

section \<open>Feature extraction is total\<close>

lemma count_if_nonneg: "0 \<le> count_if P s"
  by (simp add: count_if_def)

lemma count_if_le_length: "count_if P s \<le> int (length s)"
  by (simp add: count_if_def)

lemma ratio_in_unit:
  "0 \<le> to_double (of_int (count_if P s) / of_int (max (int (length s)) 1)) \<and>
   to_double (of_int (count_if P s) / of_int (max (int (length s)) 1)) \<le> 1"
proof -
  let ?n = "count_if P s" and ?d = "max (int (length s)) 1"
  have d: "0 < ?d" by simp
  have n: "0 \<le> ?n" "?n \<le> ?d"
    using count_if_nonneg [of P s] count_if_le_length [of P s] by simp_all
  have lo: "(0::rat) \<le> of_int ?n / of_int ?d"
    using n(1) d by simp
  have "(of_int ?n :: rat) \<le> of_int ?d"
    using n(2) by (simp only: of_int_le_iff)
  then have hi: "(of_int ?n :: rat) / of_int ?d \<le> 1"
    using d by (simp add: divide_le_eq_1)
  show ?thesis
    using to_double_nonneg [OF lo] to_double_le_one [OF lo hi] by simp
qed

lemma extract_features_eq:
  "extract_features L url =
     Inr \<lparr> url_length = int (length url),
           hostname_length = int (length (fst (parse_url L url))),
           path_length = int (length (snd (parse_url L url))),
           num_dots = count_char 46 url,
           num_hyphens = count_char 45 url,
           num_underscores = count_char 95 url,
           num_slashes = count_char 47 url,
           num_at = count_char 64 url,
           num_question = count_char 63 url,
           num_equals = count_char 61 url,
           num_ampersand = count_char 38 url,
           num_percent = count_char 37 url,
           num_digits = count_if (isdigit L) url,
           has_ip = (if re_search_ip L url then 1 else 0),
           has_https = (if startswith url (ustr ''https'') then 1 else 0),
           has_www = (if str_in (ustr ''www.'') url then 1 else 0),
           has_at_sign = (if str_in (ustr ''@'') url then 1 else 0),
           has_double_slash = (if str_in (ustr ''//'') (drop 7 url) then 1 else 0),
           has_hex_encoding = (if str_in (ustr ''%'') url then 1 else 0),
           num_subdomains = (if fst (parse_url L url) \<noteq> []
                             then int (length (split_on 46 (fst (parse_url L url)))) - 2 else 0),
           has_suspicious_word =
             (if list_ex (\<lambda>w. str_in w (lower L url)) suspicious_words then 1 else 0),
           digit_ratio = to_double (of_int (count_if (isdigit L) url) / of_int (max (int (length url)) 1)),
           letter_ratio = to_double (of_int (count_if (isalpha L) url) / of_int (max (int (length url)) 1)),
           special_ratio = to_double (of_int (count_if (\<lambda>c. \<not> isalnum L c) url)
                                      / of_int (max (int (length url)) 1)) \<rparr>"
proof -
  have nz: "max (int (length url)) 1 \<noteq> 0" by simp
  show ?thesis
    unfolding extract_features_def int_truediv_def
    by (simp only: nz if_False sum.case Let_def split_beta)
qed

text \<open>
  Claim C1. For every string \<open>s\<close>, \<open>extract_features\<close> returns a record and raises
  nothing; its \<open>url_length\<close> is the number of characters of \<open>s\<close>, each of the three
  ratios lies between 0 and 1, and for the empty string, where the denominator
  \<open>max(len(url), 1)\<close> is 1, all three ratios are 0.
\<close>

theorem extract_features_total:
  "\<exists>f. extract_features L s = Inr f \<and> url_length f = int (length s)
       \<and> 0 \<le> digit_ratio f \<and> digit_ratio f \<le> 1
       \<and> 0 \<le> letter_ratio f \<and> letter_ratio f \<le> 1
       \<and> 0 \<le> special_ratio f \<and> special_ratio f \<le> 1
       \<and> (s = [] \<longrightarrow> digit_ratio f = 0 \<and> letter_ratio f = 0 \<and> special_ratio f = 0)"
proof -
  have z: "to_double 0 = 0" by (simp add: to_double_def)
  show ?thesis
    using ratio_in_unit [of "isdigit L" s] ratio_in_unit [of "isalpha L" s]
      ratio_in_unit [of "\<lambda>c. \<not> isalnum L c" s]
    by (simp add: extract_features_eq count_if_def z)
qed

theorem extract_features_total_witness:
  "\<exists>f. extract_features ascii_lib [] = Inr f \<and> url_length f = 0
       \<and> digit_ratio f = 0 \<and> letter_ratio f = 0 \<and> special_ratio f = 0"
  using extract_features_total [of ascii_lib "[]"] by auto

section \<open>The three ratios together\<close>

lemma digit_alpha_disjoint:
  assumes "\<forall>c. \<not> (uc_isdigit L c \<and> uc_isalpha L c)"
  shows "\<not> (isdigit L c \<and> isalpha L c)"
  using assms by (auto simp: isdigit_def isalpha_def)

lemma class_counts:
  assumes "\<And>c. \<not> (D c \<and> A c)" "\<And>c. D c \<Longrightarrow> N c" "\<And>c. A c \<Longrightarrow> N c"
  shows "length (filter D s) + length (filter A s) + length (filter (\<lambda>c. \<not> N c) s) \<le> length s"
proof (induction s)
  case Nil
  then show ?case by simp
next
  case (Cons c s)
  have "(if D c then 1 else 0) + (if A c then 1 else 0) + (if \<not> N c then 1 else 0) \<le> (1::nat)"
    using assms [of c] by auto
  with Cons show ?case by auto
qed

lemma count_if_classes:
  assumes "\<forall>c. \<not> (uc_isdigit L c \<and> uc_isalpha L c)"
  shows "count_if (isdigit L) s + count_if (isalpha L) s + count_if (\<lambda>c. \<not> isalnum L c) s
         \<le> int (length s)"
proof -
  have "length (filter (isdigit L) s) + length (filter (isalpha L) s)
        + length (filter (\<lambda>c. \<not> isalnum L c) s) \<le> length s"
    by (rule class_counts) (use digit_alpha_disjoint [OF assms] in \<open>auto simp: isalnum_def\<close>)
  then show ?thesis
    unfolding count_if_def by linarith
qed

lemma to_double_upper:
  assumes "0 \<le> q" "q \<le> 1"
  shows "to_double q \<le> q + 1 / 2 ^ 54"
  using to_double_err [OF assms] by linarith

text \<open>
  Claim C9, as amended. The claim is that \<open>digit_ratio + letter_ratio + special_ratio\<close>
  never exceeds 1. What holds, for a character database in which no character is both a
  digit and a letter, is that the numbers of digits, of letters and of non-alphanumeric
  characters of \<open>s\<close> add up to at most \<open>len(s)\<close>; each ratio is its quotient by
  \<open>max(len(s), 1)\<close> rounded to a float, and the sum of the three stored ratios is at
  most \<open>1 + 3 / 2^54\<close>. The rounding can push the sum above 1, as in the URL of
  \<open>ratio_sum_counterexample\<close> below (14 digits, 23 letters and 4 other characters out
  of 41), where both the exact sum of the three floats and their float sum
  \<open>1.0000000000000002\<close> exceed 1.
\<close>

theorem ratio_sum_rounded:
  assumes "\<forall>c. \<not> (uc_isdigit L c \<and> uc_isalpha L c)"
  shows "\<exists>f. extract_features L s = Inr f
     \<and> count_if (isdigit L) s + count_if (isalpha L) s + count_if (\<lambda>c. \<not> isalnum L c) s
         \<le> int (length s)
     \<and> digit_ratio f = to_double (of_int (count_if (isdigit L) s) / of_int (max (int (length s)) 1))
     \<and> letter_ratio f = to_double (of_int (count_if (isalpha L) s) / of_int (max (int (length s)) 1))
     \<and> special_ratio f = to_double (of_int (count_if (\<lambda>c. \<not> isalnum L c) s)
                                      / of_int (max (int (length s)) 1))
     \<and> digit_ratio f + letter_ratio f + special_ratio f \<le> 1 + 3 / 2 ^ 54"
proof -
  define n :: rat where "n = of_int (max (int (length s)) 1)"
  define a :: rat where "a = of_int (count_if (isdigit L) s)"
  define b :: rat where "b = of_int (count_if (isalpha L) s)"
  define c :: rat where "c = of_int (count_if (\<lambda>c. \<not> isalnum L c) s)"
  have n: "0 < n" unfolding n_def by simp
  have nonneg: "0 \<le> a" "0 \<le> b" "0 \<le> c"
    unfolding a_def b_def c_def by (simp_all add: count_if_def)
  have cnt: "count_if (isdigit L) s + count_if (isalpha L) s + count_if (\<lambda>c. \<not> isalnum L c) s
             \<le> int (length s)"
    by (rule count_if_classes [OF assms])
  also have "\<dots> \<le> max (int (length s)) 1" by simp
  finally have "(of_int (count_if (isdigit L) s + count_if (isalpha L) s
                   + count_if (\<lambda>c. \<not> isalnum L c) s) :: rat) \<le> of_int (max (int (length s)) 1)"
    by (simp only: of_int_le_iff)
  then have sum: "a + b + c \<le> n"
    unfolding a_def b_def c_def n_def by simp
  have le: "a \<le> n" "b \<le> n" "c \<le> n"
    using sum nonneg by linarith+
  have q: "0 \<le> a / n" "a / n \<le> 1" "0 \<le> b / n" "b / n \<le> 1" "0 \<le> c / n" "c / n \<le> 1"
    using n nonneg le by (simp_all add: divide_le_eq_1)
  have "a / n + b / n + c / n = (a + b + c) / n"
    by (simp add: add_divide_distrib)
  also have "\<dots> \<le> 1" using sum n by (simp add: divide_le_eq_1)
  finally have exact: "a / n + b / n + c / n \<le> 1" .
  have "to_double (a / n) + to_double (b / n) + to_double (c / n) \<le> 1 + 3 / 2 ^ 54"
    using to_double_upper [OF q(1,2)] to_double_upper [OF q(3,4)] to_double_upper [OF q(5,6)] exact
    by linarith
  then show ?thesis
    using cnt unfolding a_def b_def c_def n_def by (simp add: extract_features_eq)
qed

theorem ratio_sum_counterexample:
  "\<not> isl (extract_features ascii_lib (ustr ''login.example.com/reset/12345678901234abc''))
   \<and> 1 < digit_ratio (projr (extract_features ascii_lib (ustr ''login.example.com/reset/12345678901234abc'')))
         + letter_ratio (projr (extract_features ascii_lib (ustr ''login.example.com/reset/12345678901234abc'')))
         + special_ratio (projr (extract_features ascii_lib (ustr ''login.example.com/reset/12345678901234abc'')))
   \<and> 1 < float_add (float_add
             (digit_ratio (projr (extract_features ascii_lib (ustr ''login.example.com/reset/12345678901234abc''))))
             (letter_ratio (projr (extract_features ascii_lib (ustr ''login.example.com/reset/12345678901234abc'')))))
             (special_ratio (projr (extract_features ascii_lib (ustr ''login.example.com/reset/12345678901234abc''))))"
proof -
  let ?u = "ustr ''login.example.com/reset/12345678901234abc''"
  have c: "count_if (isdigit ascii_lib) ?u = 14" "count_if (isalpha ascii_lib) ?u = 23"
    "count_if (\<lambda>c. \<not> isalnum ascii_lib c) ?u = 4"
    by code_simp+
  have n: "length ?u = 41" by (simp add: ustr_def)
  have d: "to_double (14 / 41) = 6151258027627995 / 18014398509481984"
    "to_double (23 / 41) = 1263204773530749 / 2251799813685248"
    "to_double (4 / 41) = 3515004587215997 / 36028797018963968"
    by code_simp+
  have s: "float_add (float_add (6151258027627995 / 18014398509481984)
              (1263204773530749 / 2251799813685248)) (3515004587215997 / 36028797018963968)
           = 4503599627370497 / 4503599627370496"
    by code_simp
  show ?thesis
    unfolding extract_features_eq by (simp add: c n d s)
qed

theorem ratio_sum_rounded_witness:
  "\<exists>f. extract_features ascii_lib (ustr ''a1/'') = Inr f
     \<and> digit_ratio f + letter_ratio f + special_ratio f \<le> 1 + 3 / 2 ^ 54"
proof -
  have h: "\<forall>c. \<not> (uc_isdigit ascii_lib c \<and> uc_isalpha ascii_lib c)"
    by (simp add: ascii_lib_def)
  show ?thesis
    using ratio_sum_rounded [OF h, of "ustr ''a1/''"] by blast
qed

section \<open>Test vectors\<close>

lemma to_double_0: "to_double 0 = 0"
  by (simp add: to_double_def)

lemma to_double_1: "to_double 1 = 1"
  by code_simp

text \<open>
  Claim C8. The three test vectors: on the empty string \<open>extract_features\<close> gives
  \<open>url_length = 0\<close>, all three ratios 0, \<open>has_ip = 0\<close>, \<open>has_https = 0\<close> and
  \<open>num_subdomains = 0\<close>; on \<open>https://www.paypal-login.com/secure?x=1\<close> it gives
  \<open>has_https = 1\<close>, \<open>has_www = 1\<close>, \<open>has_suspicious_word = 1\<close> (the lower-cased URL
  contains \<open>paypal\<close>, \<open>login\<close> and \<open>secure\<close>), \<open>num_hyphens = 1\<close>, \<open>num_equals = 1\<close>
  and \<open>num_question = 1\<close>; on \<open>192.168.1.1/admin\<close> it gives \<open>has_ip = 1\<close> and
  \<open>has_suspicious_word = 1\<close>. This holds whatever the tables beyond ASCII are.
\<close>

theorem extract_features_vectors:
  "(\<exists>f. extract_features L (ustr '''') = Inr f \<and> url_length f = 0 \<and> digit_ratio f = 0
        \<and> letter_ratio f = 0 \<and> special_ratio f = 0 \<and> has_ip f = 0 \<and> has_https f = 0
        \<and> num_subdomains f = 0)
   \<and> (\<exists>f. extract_features L (ustr ''https://www.paypal-login.com/secure?x=1'') = Inr f
        \<and> has_https f = 1 \<and> has_www f = 1 \<and> has_suspicious_word f = 1 \<and> num_hyphens f = 1
        \<and> num_equals f = 1 \<and> num_question f = 1)
   \<and> str_in (ustr ''paypal'') (lower L (ustr ''https://www.paypal-login.com/secure?x=1''))
   \<and> str_in (ustr ''login'') (lower L (ustr ''https://www.paypal-login.com/secure?x=1''))
   \<and> str_in (ustr ''secure'') (lower L (ustr ''https://www.paypal-login.com/secure?x=1''))
   \<and> (\<exists>f. extract_features L (ustr ''192.168.1.1/admin'') = Inr f
        \<and> has_ip f = 1 \<and> has_suspicious_word f = 1)"
proof -
  let ?e = "ustr ''''" and ?p = "ustr ''https://www.paypal-login.com/secure?x=1''"
    and ?a = "ustr ''192.168.1.1/admin''"
  have e: "?e = []" by (simp add: ustr_def)
  have e1: "fst (parse_url L []) = []" by code_simp
  have e2: "\<not> re_match_ip L []" by code_simp
  have e3: "\<not> startswith [] (ustr ''https'')" by code_simp
  have p1: "startswith ?p (ustr ''https'')" by code_simp
  have p2: "str_in (ustr ''www.'') ?p" by code_simp
  have p3: "str_in (ustr ''paypal'') (lower L ?p)" by code_simp
  have p4: "str_in (ustr ''login'') (lower L ?p)" by code_simp
  have p5: "str_in (ustr ''secure'') (lower L ?p)" by code_simp
  have p6: "list_ex (\<lambda>w. str_in w (lower L ?p)) suspicious_words"
    using p3 by (simp add: suspicious_words_def list_ex_iff)
  have p7: "count_char 45 ?p = 1" "count_char 61 ?p = 1" "count_char 63 ?p = 1" by code_simp+
  have a1: "re_search_ip L ?a" by code_simp
  have a2: "str_in (ustr ''admin'') (lower L ?a)" by code_simp
  have a3: "list_ex (\<lambda>w. str_in w (lower L ?a)) suspicious_words"
    using a2 by (simp add: suspicious_words_def list_ex_iff)
  show ?thesis
    unfolding extract_features_eq e
    by (simp add: e1 e2 e3 p1 p2 p3 p4 p5 p6 p7 a1 a3 count_if_def to_double_0)
qed

theorem extract_features_vectors_witness:
  "\<exists>f. extract_features ascii_lib (ustr ''192.168.1.1/admin'') = Inr f
        \<and> has_ip f = 1 \<and> has_suspicious_word f = 1"
  using extract_features_vectors [of ascii_lib] by blast

section \<open>The double slash\<close>

lemma extract_features_fields:
  "\<exists>f. extract_features L u = Inr f
     \<and> has_double_slash f = (if str_in (ustr ''//'') (drop 7 u) then 1 else 0)
     \<and> num_subdomains f = (if fst (parse_url L u) \<noteq> []
                            then int (length (split_on 46 (fst (parse_url L u)))) - 2 else 0)
     \<and> num_hyphens f = count_char 45 u
     \<and> url_length f = int (length u)
     \<and> hostname_length f = int (length (fst (parse_url L u)))
     \<and> path_length f = int (length (snd (parse_url L u)))
     \<and> has_suspicious_word f = (if list_ex (\<lambda>w. str_in w (lower L u)) suspicious_words then 1 else 0)
     \<and> has_ip f = (if re_search_ip L u then 1 else 0)
     \<and> has_hex_encoding f = (if str_in (ustr ''%'') u then 1 else 0)
     \<and> digit_ratio f = to_double (of_int (count_if (isdigit L) u) / of_int (max (int (length u)) 1))
     \<and> special_ratio f = to_double (of_int (count_if (\<lambda>c. \<not> isalnum L c) u)
                                      / of_int (max (int (length u)) 1))"
  unfolding extract_features_eq by simp

lemma ex_le_Suc: "(\<exists>i\<le>Suc n. P i) \<longleftrightarrow> P 0 \<or> (\<exists>j\<le>n. P (Suc j))"
proof
  assume "\<exists>i\<le>Suc n. P i"
  then obtain i where i: "i \<le> Suc n" "P i" by blast
  show "P 0 \<or> (\<exists>j\<le>n. P (Suc j))"
  proof (cases i)
    case 0
    with i show ?thesis by simp
  next
    case (Suc j)
    with i show ?thesis by auto
  qed
next
  assume "P 0 \<or> (\<exists>j\<le>n. P (Suc j))"
  then show "\<exists>i\<le>Suc n. P i" by auto
qed

lemma str_in_iff: "str_in sub s \<longleftrightarrow> (\<exists>i\<le>length s. startswith (drop i s) sub)"
proof (induction s)
  case Nil
  show ?case by (auto simp: startswith_def)
next
  case (Cons c cs)
  show ?case
    by (simp only: str_in.simps Cons.IH length_Cons ex_le_Suc drop_0 drop_Suc_Cons)
qed

lemma startswith_two: "startswith t [a, b] \<longleftrightarrow> (1 < length t \<and> t ! 0 = a \<and> t ! 1 = b)"
proof (cases t)
  case Nil
  then show ?thesis by (simp add: startswith_def)
next
  case (Cons x xs)
  then show ?thesis by (cases xs) (auto simp: startswith_def)
qed

lemma double_slash_iff:
  "str_in [47, 47] (drop 7 u) \<longleftrightarrow> (\<exists>i\<ge>7. i + 1 < length u \<and> u ! i = 47 \<and> u ! (i + 1) = 47)"
proof
  assume "str_in [47, 47] (drop 7 u)"
  then obtain j where j: "1 < length (drop (j + 7) u)" "drop (j + 7) u ! 0 = 47"
      "drop (j + 7) u ! 1 = 47"
    unfolding str_in_iff startswith_two by (auto simp: add.commute)
  from j(1) have len: "j + 7 + 1 < length u" by simp
  then have "u ! (j + 7) = 47" "u ! (j + 7 + 1) = 47"
    using j(2,3) by simp_all
  with len show "\<exists>i\<ge>7. i + 1 < length u \<and> u ! i = 47 \<and> u ! (i + 1) = 47"
    by (intro exI [of _ "j + 7"]) simp
next
  assume "\<exists>i\<ge>7. i + 1 < length u \<and> u ! i = 47 \<and> u ! (i + 1) = 47"
  then obtain i where i: "7 \<le> i" "i + 1 < length u" "u ! i = 47" "u ! (i + 1) = 47"
    by blast
  have d: "drop (i - 7) (drop 7 u) = drop i u" using i(1) by simp
  have "startswith (drop (i - 7) (drop 7 u)) [47, 47]"
    unfolding d startswith_two using i by simp
  moreover have "i - 7 \<le> length (drop 7 u)" using i by simp
  ultimately show "str_in [47, 47] (drop 7 u)"
    unfolding str_in_iff by blast
qed

text \<open>
  Claim C5. \<open>has_double_slash\<close> is 1 exactly when the URL has two consecutive slashes
  starting at a character index of 7 or more, and 0 otherwise. The index is measured in
  the string given to \<open>extract_features\<close>, not in the string with \<open>http://\<close> in front
  that the parser sees: \<open>example.com//path\<close> has its double slash at index 11 and gets
  1, while \<open>a.com//x\<close> has it at index 5 and gets 0, although the prefixed string
  \<open>http://a.com//x\<close> has a double slash from index 12.
\<close>

theorem has_double_slash_original:
  "(\<exists>f. extract_features L u = Inr f
       \<and> (has_double_slash f = 1 \<longleftrightarrow> (\<exists>i\<ge>7. i + 1 < length u \<and> u ! i = 47 \<and> u ! (i + 1) = 47))
       \<and> (has_double_slash f = 0 \<or> has_double_slash f = 1))
   \<and> (\<exists>f. extract_features L (ustr ''example.com//path'') = Inr f \<and> has_double_slash f = 1)
   \<and> (\<exists>f. extract_features L (ustr ''a.com//x'') = Inr f \<and> has_double_slash f = 0)
   \<and> str_in (ustr ''//'') (drop 7 (ustr ''http://'' @ ustr ''a.com//x''))"
proof (intro conjI)
  have s: "ustr ''//'' = [47, 47]" by (simp add: ustr_def)
  obtain f where f: "extract_features L u = Inr f"
      "has_double_slash f = (if str_in (ustr ''//'') (drop 7 u) then 1 else 0)"
    using extract_features_fields [of L u] by blast
  have "has_double_slash f = 1 \<longleftrightarrow> str_in [47, 47] (drop 7 u)"
    unfolding f(2) s by simp
  then have "has_double_slash f = 1
             \<longleftrightarrow> (\<exists>i\<ge>7. i + 1 < length u \<and> u ! i = 47 \<and> u ! (i + 1) = 47)"
    by (simp only: double_slash_iff)
  moreover have "has_double_slash f = 0 \<or> has_double_slash f = 1"
    unfolding f(2) by simp
  ultimately show "\<exists>f. extract_features L u = Inr f
       \<and> (has_double_slash f = 1 \<longleftrightarrow> (\<exists>i\<ge>7. i + 1 < length u \<and> u ! i = 47 \<and> u ! (i + 1) = 47))
       \<and> (has_double_slash f = 0 \<or> has_double_slash f = 1)"
    using f(1) by blast
  have a: "str_in (ustr ''//'') (drop 7 (ustr ''example.com//path''))" by code_simp
  show "\<exists>f. extract_features L (ustr ''example.com//path'') = Inr f \<and> has_double_slash f = 1"
    using extract_features_fields [of L "ustr ''example.com//path''"] a by auto
  have b: "\<not> str_in (ustr ''//'') (drop 7 (ustr ''a.com//x''))" by code_simp
  show "\<exists>f. extract_features L (ustr ''a.com//x'') = Inr f \<and> has_double_slash f = 0"
    using extract_features_fields [of L "ustr ''a.com//x''"] b by auto
  show "str_in (ustr ''//'') (drop 7 (ustr ''http://'' @ ustr ''a.com//x''))" by code_simp
qed

theorem has_double_slash_original_witness:
  "\<exists>f. extract_features ascii_lib (ustr ''example.com//path'') = Inr f \<and> has_double_slash f = 1
      \<and> ustr ''example.com//path'' ! 11 = 47 \<and> ustr ''example.com//path'' ! 12 = 47"
proof -
  have n: "ustr ''example.com//path'' ! 11 = 47" "ustr ''example.com//path'' ! 12 = 47"
    by (simp_all add: ustr_def)
  show ?thesis
    using has_double_slash_original [of ascii_lib "ustr ''example.com//path''"] n by blast
qed

section \<open>Subdomains\<close>

lemma split_on_nonempty: "split_on c s \<noteq> []"
  by (induction s) (auto split: list.splits)

lemma length_split_on: "length (split_on c s) = Suc (length (filter (\<lambda>x. x = c) s))"
proof (induction s)
  case Nil
  show ?case by simp
next
  case (Cons x xs)
  obtain h t where ht: "split_on c xs = h # t"
    using split_on_nonempty [of c xs] by (cases "split_on c xs") auto
  with Cons show ?case by auto
qed

lemma get_dna_scores_eq:
  "get_dna_scores url f =
     (Inr \<lparr> length_risk = min (to_double (of_int (int (length url)) / 150)) 1,
            special_chars = min (float_mul (special_ratio f) 3) 1,
            suspicious_kw = float_of_int (has_suspicious_word f),
            ip_address_score = float_of_int (has_ip f),
            subdomain_depth = min (to_double (of_int (max (num_subdomains f) 0) / 4)) 1,
            digit_density = min (float_mul (digit_ratio f) 4) 1,
            hyphen_abuse = min (to_double (of_int (num_hyphens f) / 6)) 1,
            encoding_tricks = float_of_int (has_hex_encoding f) \<rparr>, f)"
  by (simp add: get_dna_scores_def int_truediv_def)

lemma quarter_exact:
  assumes "0 \<le> k"
  shows "min (to_double (of_int k / 4)) 1 = min (of_int k / 4) (1::rat)"
proof (cases "k \<le> 4")
  case True
  have v: "to_double (1 / 4) = 1 / 4" "to_double (1 / 2) = 1 / 2" "to_double (3 / 4) = 3 / 4"
    by code_simp+
  from True assms consider "k = 0" | "k = 1" | "k = 2" | "k = 3" | "k = 4" by linarith
  then show ?thesis
    by cases (simp_all add: v to_double_0 to_double_1)
next
  case False
  then have "4 \<le> k" by simp
  then have "(of_int 4 :: rat) \<le> of_int k" by (simp only: of_int_le_iff)
  then have g: "(1::rat) \<le> of_int k / 4" by simp
  show ?thesis
    using to_double_ge_one [OF g] g by simp
qed

text \<open>
  Claim C4. \<open>num_subdomains\<close> is the number of dot-separated labels of the parsed
  hostname (one more than its number of dots) minus 2 when the hostname is non-empty, and
  0 when it is empty; the record keeps the raw value, which is \<open>-1\<close> for \<open>localhost\<close>.
  The Subdomain Depth score is \<open>min(max(num_subdomains, 0) / 4, 1)\<close>, exactly, so a
  negative \<open>num_subdomains\<close> gives the score 0.
\<close>

theorem num_subdomains_raw:
  "(\<exists>f d. extract_features L u = Inr f \<and> fst (get_dna_scores u f) = Inr d
       \<and> num_subdomains f = (if fst (parse_url L u) = [] then 0
                              else int (length (split_on 46 (fst (parse_url L u)))) - 2)
       \<and> int (length (split_on 46 (fst (parse_url L u)))) = count_char 46 (fst (parse_url L u)) + 1
       \<and> subdomain_depth d = min (of_int (max (num_subdomains f) 0) / 4) 1
       \<and> (num_subdomains f < 0 \<longrightarrow> subdomain_depth d = 0))
   \<and> (\<exists>f d. extract_features L (ustr ''localhost'') = Inr f
       \<and> fst (get_dna_scores (ustr ''localhost'') f) = Inr d
       \<and> num_subdomains f = - 1 \<and> subdomain_depth d = 0)"
proof -
  have depth: "\<exists>d. fst (get_dna_scores v f) = Inr d
                 \<and> subdomain_depth d = min (of_int (max (num_subdomains f) 0) / 4) 1" for v f
    unfolding get_dna_scores_eq using quarter_exact [of "max (num_subdomains f) 0"] by simp
  have general: "\<exists>f d. extract_features L v = Inr f \<and> fst (get_dna_scores v f) = Inr d
       \<and> num_subdomains f = (if fst (parse_url L v) = [] then 0
                              else int (length (split_on 46 (fst (parse_url L v)))) - 2)
       \<and> int (length (split_on 46 (fst (parse_url L v)))) = count_char 46 (fst (parse_url L v)) + 1
       \<and> subdomain_depth d = min (of_int (max (num_subdomains f) 0) / 4) 1
       \<and> (num_subdomains f < 0 \<longrightarrow> subdomain_depth d = 0)" for v
  proof -
    obtain f where f: "extract_features L v = Inr f"
        "num_subdomains f = (if fst (parse_url L v) \<noteq> []
           then int (length (split_on 46 (fst (parse_url L v)))) - 2 else 0)"
      using extract_features_fields [of L v] by blast
    obtain d where d: "fst (get_dna_scores v f) = Inr d"
        "subdomain_depth d = min (of_int (max (num_subdomains f) 0) / 4) 1"
      using depth [of v f] by blast
    have n: "num_subdomains f = (if fst (parse_url L v) = [] then 0
                                  else int (length (split_on 46 (fst (parse_url L v)))) - 2)"
      unfolding f(2) by simp
    have c: "int (length (split_on 46 (fst (parse_url L v)))) = count_char 46 (fst (parse_url L v)) + 1"
      by (simp add: length_split_on count_char_def)
    have z: "num_subdomains f < 0 \<longrightarrow> subdomain_depth d = 0"
      unfolding d(2) by (simp add: max_def)
    show ?thesis using f(1) d n c z by blast
  qed
  have h: "fst (parse_url L (ustr ''localhost'')) = ustr ''localhost''" by code_simp
  have n: "ustr ''localhost'' \<noteq> []" by (simp add: ustr_def)
  have m: "int (length (split_on 46 (ustr ''localhost''))) - 2 = - 1" by code_simp
  obtain f d where fd: "extract_features L (ustr ''localhost'') = Inr f"
      "fst (get_dna_scores (ustr ''localhost'') f) = Inr d"
      "num_subdomains f = (if fst (parse_url L (ustr ''localhost'')) = [] then 0
         else int (length (split_on 46 (fst (parse_url L (ustr ''localhost''))))) - 2)"
      "num_subdomains f < 0 \<longrightarrow> subdomain_depth d = 0"
    using general [of "ustr ''localhost''"] by blast
  have "num_subdomains f = - 1"
    unfolding fd(3) h using n m by simp
  then have "num_subdomains f = - 1 \<and> subdomain_depth d = 0"
    using fd(4) by simp
  then show ?thesis
    using general [of u] fd(1,2) by blast
qed

theorem num_subdomains_raw_witness:
  "\<exists>f d. extract_features ascii_lib (ustr ''localhost'') = Inr f
       \<and> fst (get_dna_scores (ustr ''localhost'') f) = Inr d
       \<and> num_subdomains f = - 1 \<and> subdomain_depth d = 0"
  using num_subdomains_raw [of ascii_lib "ustr ''localhost''"] by blast

section \<open>Parsing degrades gracefully\<close>

text \<open>
  Claim C2. The parsing step of \<open>extract_features\<close> puts \<open>http://\<close> in front of a URL
  that does not start with \<open>http\<close> and parses the result; whenever the parser raises,
  the hostname is empty and the path is the URL as given; the step itself always returns
  a hostname and a path, whose lengths are the \<open>hostname_length\<close> and \<open>path_length\<close> of
  the record. The scheme-less \<open>example.com/page\<close> gets the hostname \<open>example.com\<close>;
  the parser raises on \<open>http://[\<close>, and \<open>[\<close> gets the empty hostname and the path
  \<open>[\<close>. The test is on the first four characters only: \<open>httpbin.org/get\<close> starts
  with \<open>http\<close>, is parsed as given and has no hostname.
\<close>

theorem parse_url_graceful:
  "parse_url L url =
     (case urlparse L (if startswith url (ustr ''http'') then url else ustr ''http://'' @ url) of
        Inl e \<Rightarrow> ([], url)
      | Inr p \<Rightarrow> ((case hostname_of L p of None \<Rightarrow> [] | Some h \<Rightarrow> h), pr_path p))
   \<and> (\<forall>e. urlparse L (if startswith url (ustr ''http'') then url else ustr ''http://'' @ url) = Inl e
          \<longrightarrow> parse_url L url = ([], url))
   \<and> (\<exists>f. extract_features L url = Inr f
          \<and> hostname_length f = int (length (fst (parse_url L url)))
          \<and> path_length f = int (length (snd (parse_url L url))))
   \<and> parse_url L (ustr ''example.com/page'') = (ustr ''example.com'', ustr ''/page'')
   \<and> urlparse L (ustr ''http://['') = Inl ValueError
   \<and> parse_url L (ustr ''['') = ([], ustr ''['')
   \<and> parse_url L (ustr ''httpbin.org/get'') = ([], ustr ''httpbin.org/get'')"
proof (intro conjI)
  show "parse_url L url =
     (case urlparse L (if startswith url (ustr ''http'') then url else ustr ''http://'' @ url) of
        Inl e \<Rightarrow> ([], url)
      | Inr p \<Rightarrow> ((case hostname_of L p of None \<Rightarrow> [] | Some h \<Rightarrow> h), pr_path p))"
    unfolding parse_url_def by (auto split: sum.splits option.splits)
  show "\<forall>e. urlparse L (if startswith url (ustr ''http'') then url else ustr ''http://'' @ url) = Inl e
          \<longrightarrow> parse_url L url = ([], url)"
    unfolding parse_url_def by simp
  show "\<exists>f. extract_features L url = Inr f
          \<and> hostname_length f = int (length (fst (parse_url L url)))
          \<and> path_length f = int (length (snd (parse_url L url)))"
    using extract_features_fields [of L url] by blast
  show "parse_url L (ustr ''example.com/page'') = (ustr ''example.com'', ustr ''/page'')"
    by code_simp
  show "urlparse L (ustr ''http://['') = Inl ValueError"
    by code_simp
  show "parse_url L (ustr ''['') = ([], ustr ''['')"
    by code_simp
  show "parse_url L (ustr ''httpbin.org/get'') = ([], ustr ''httpbin.org/get'')"
    by code_simp
qed

theorem parse_url_graceful_witness:
  "urlparse ascii_lib (ustr ''http://['') = Inl ValueError
   \<and> parse_url ascii_lib (ustr ''['') = ([], ustr ''['')"
proof -
  have p: "(if startswith (ustr ''['') (ustr ''http'') then ustr ''[''
            else ustr ''http://'' @ ustr ''['') = ustr ''http://[''"
    by code_simp
  have e: "urlparse ascii_lib (ustr ''http://['') = Inl ValueError"
    by code_simp
  show ?thesis
    using parse_url_graceful [of ascii_lib "ustr ''[''"] e unfolding p by blast
qed

section \<open>The threat scores are normalised\<close>

lemma clamp_unit:
  assumes "0 \<le> x"
  shows "0 \<le> min (to_double x) 1 \<and> min (to_double x) 1 \<le> 1"
  using to_double_nonneg [OF assms] by simp

lemma flag_float: "float_of_int (if b then 1 else 0) = (if b then 1 else 0)"
  by (simp add: float_of_int_def to_double_0 to_double_1)

lemma count_char_nonneg: "0 \<le> count_char c s"
  by (simp add: count_char_def)

text \<open>
  Claim C3. For every URL and the record that \<open>extract_features\<close> produces from it,
  \<open>get_dna_scores\<close> returns eight scores and raises nothing, each score lies between 0
  and 1, the Length Risk is \<open>min(url_length / 150, 1)\<close> of the record's own
  \<open>url_length\<close> and is exactly 1 for a URL of 10000 characters, and the call leaves
  the record as it was.
\<close>

theorem get_dna_scores_bounded:
  "\<exists>f d. extract_features L url = Inr f \<and> get_dna_scores url f = (Inr d, f)
     \<and> 0 \<le> length_risk d \<and> length_risk d \<le> 1
     \<and> 0 \<le> special_chars d \<and> special_chars d \<le> 1
     \<and> 0 \<le> suspicious_kw d \<and> suspicious_kw d \<le> 1
     \<and> 0 \<le> ip_address_score d \<and> ip_address_score d \<le> 1
     \<and> 0 \<le> subdomain_depth d \<and> subdomain_depth d \<le> 1
     \<and> 0 \<le> digit_density d \<and> digit_density d \<le> 1
     \<and> 0 \<le> hyphen_abuse d \<and> hyphen_abuse d \<le> 1
     \<and> 0 \<le> encoding_tricks d \<and> encoding_tricks d \<le> 1
     \<and> length_risk d = min (to_double (of_int (url_length f) / 150)) 1
     \<and> (length url = 10000 \<longrightarrow> length_risk d = 1)"
proof -
  obtain f where f: "extract_features L url = Inr f"
      "num_hyphens f = count_char 45 url"
      "url_length f = int (length url)"
      "has_suspicious_word f = (if list_ex (\<lambda>w. str_in w (lower L url)) suspicious_words then 1 else 0)"
      "has_ip f = (if re_search_ip L url then 1 else 0)"
      "has_hex_encoding f = (if str_in (ustr ''%'') url then 1 else 0)"
      "digit_ratio f = to_double (of_int (count_if (isdigit L) url) / of_int (max (int (length url)) 1))"
      "special_ratio f = to_double (of_int (count_if (\<lambda>c. \<not> isalnum L c) url)
                                      / of_int (max (int (length url)) 1))"
    using extract_features_fields [of L url] by blast
  define d where "d = \<lparr> length_risk = min (to_double (of_int (int (length url)) / 150)) 1,
            special_chars = min (float_mul (special_ratio f) 3) 1,
            suspicious_kw = float_of_int (has_suspicious_word f),
            ip_address_score = float_of_int (has_ip f),
            subdomain_depth = min (to_double (of_int (max (num_subdomains f) 0) / 4)) 1,
            digit_density = min (float_mul (digit_ratio f) 4) 1,
            hyphen_abuse = min (to_double (of_int (num_hyphens f) / 6)) 1,
            encoding_tricks = float_of_int (has_hex_encoding f) \<rparr>"
  have g: "get_dna_scores url f = (Inr d, f)"
    unfolding d_def by (rule get_dna_scores_eq)
  have sr: "0 \<le> special_ratio f" and dr: "0 \<le> digit_ratio f"
    unfolding f(7,8) using ratio_in_unit by blast+
  have lr: "0 \<le> length_risk d \<and> length_risk d \<le> 1"
    unfolding d_def using clamp_unit [of "of_int (int (length url)) / 150"] by simp
  have sc: "0 \<le> special_chars d \<and> special_chars d \<le> 1"
    unfolding d_def float_mul_def using clamp_unit [of "special_ratio f * 3"] sr by simp
  have dd: "0 \<le> digit_density d \<and> digit_density d \<le> 1"
    unfolding d_def float_mul_def using clamp_unit [of "digit_ratio f * 4"] dr by simp
  have sd: "0 \<le> subdomain_depth d \<and> subdomain_depth d \<le> 1"
    unfolding d_def using clamp_unit [of "of_int (max (num_subdomains f) 0) / 4"] by simp
  have ha: "0 \<le> hyphen_abuse d \<and> hyphen_abuse d \<le> 1"
    unfolding d_def f(2) using clamp_unit [of "of_int (count_char 45 url) / 6"]
      count_char_nonneg [of 45 url] by simp
  have kw: "0 \<le> suspicious_kw d \<and> suspicious_kw d \<le> 1"
    unfolding d_def f(4) by (simp add: flag_float)
  have ip: "0 \<le> ip_address_score d \<and> ip_address_score d \<le> 1"
    unfolding d_def f(5) by (simp add: flag_float)
  have et: "0 \<le> encoding_tricks d \<and> encoding_tricks d \<le> 1"
    unfolding d_def f(6) by (simp add: flag_float)
  have eq: "length_risk d = min (to_double (of_int (url_length f) / 150)) 1"
    unfolding d_def f(3) by simp
  have big: "length url = 10000 \<longrightarrow> length_risk d = 1"
  proof
    assume n: "length url = 10000"
    have "(1::rat) \<le> 10000 / 150" by simp
    then have "1 \<le> to_double (10000 / 150)" by (rule to_double_ge_one)
    then show "length_risk d = 1"
      unfolding d_def n by simp
  qed
  show ?thesis
    using f(1) g lr sc dd sd ha kw ip et eq big by blast
qed

theorem get_dna_scores_bounded_witness:
  "\<exists>f d. extract_features ascii_lib (replicate 10000 97) = Inr f
     \<and> get_dna_scores (replicate 10000 97) f = (Inr d, f) \<and> length_risk d = 1"
proof -
  have n: "length (replicate 10000 (97::nat)) = 10000" by simp
  show ?thesis
    using get_dna_scores_bounded [of ascii_lib "replicate 10000 97"] n by blast
qed

section \<open>Request validation\<close>

lemma strip_Nil: "strip L [] = []"
  by (simp add: strip_def)

lemma predict_outcome:
  "predict L C data_url =
     (if strip L (case data_url of None \<Rightarrow> [] | Some u \<Rightarrow> u) = []
      then (Err400 ''No URL provided'', [])
      else (case predict_body L C (strip L (case data_url of None \<Rightarrow> [] | Some u \<Rightarrow> u)) of
              Inl e \<Rightarrow> (Raised e, [strip L (case data_url of None \<Rightarrow> [] | Some u \<Rightarrow> u)])
            | Inr r \<Rightarrow> (Ok200 r, [strip L (case data_url of None \<Rightarrow> [] | Some u \<Rightarrow> u)])))"
  by (simp add: predict_def Let_def)

text \<open>
  Claim C6. \<open>predict\<close> answers with the 400 error \<open>No URL provided\<close> exactly when the
  \<open>url\<close> key is absent or its value trims to the empty string. \<open>bulk\<close> answers with
  the 400 error \<open>No URLs provided\<close> when the \<open>urls\<close> key is absent or the list is
  empty, and with the 400 error \<open>Max 500 URLs per batch\<close> when the list has more than
  500 entries; it gives a 400 error in no other case. In each of these cases the list of
  URLs on which feature extraction and classification were started is empty, whatever the
  classifier is.
\<close>

theorem invalid_requests_rejected:
  "((\<exists>msg. fst (predict L C data_url) = Err400 msg)
       \<longleftrightarrow> (case data_url of None \<Rightarrow> True | Some u \<Rightarrow> strip L u = []))
   \<and> ((case data_url of None \<Rightarrow> True | Some u \<Rightarrow> strip L u = [])
       \<longrightarrow> predict L C data_url = (Err400 ''No URL provided'', []))
   \<and> bulk L C None = (Err400 ''No URLs provided'', [])
   \<and> bulk L C (Some []) = (Err400 ''No URLs provided'', [])
   \<and> (500 < length urls \<longrightarrow> bulk L C (Some urls) = (Err400 ''Max 500 URLs per batch'', []))
   \<and> ((\<exists>msg. fst (bulk L C (Some urls)) = Err400 msg) \<longleftrightarrow> (urls = [] \<or> 500 < length urls))"
proof (intro conjI)
  show "(\<exists>msg. fst (predict L C data_url) = Err400 msg)
       \<longleftrightarrow> (case data_url of None \<Rightarrow> True | Some u \<Rightarrow> strip L u = [])"
    unfolding predict_outcome
    by (cases data_url) (auto simp: strip_Nil split: sum.splits)
  show "(case data_url of None \<Rightarrow> True | Some u \<Rightarrow> strip L u = [])
       \<longrightarrow> predict L C data_url = (Err400 ''No URL provided'', [])"
    unfolding predict_outcome
    by (cases data_url) (auto simp: strip_Nil)
  show "bulk L C None = (Err400 ''No URLs provided'', [])"
    by (simp add: bulk_def)
  show "bulk L C (Some []) = (Err400 ''No URLs provided'', [])"
    by (simp add: bulk_def)
  show "500 < length urls \<longrightarrow> bulk L C (Some urls) = (Err400 ''Max 500 URLs per batch'', [])"
    by (auto simp: bulk_def)
  show "(\<exists>msg. fst (bulk L C (Some urls)) = Err400 msg) \<longleftrightarrow> (urls = [] \<or> 500 < length urls)"
    by (auto simp: bulk_def Let_def split: prod.splits sum.splits)
qed

theorem invalid_requests_rejected_witness:
  "predict ascii_lib stub_classifier (Some (ustr ''   '')) = (Err400 ''No URL provided'', [])
   \<and> bulk ascii_lib stub_classifier (Some (replicate 501 (ustr ''http://a.com'')))
       = (Err400 ''Max 500 URLs per batch'', [])"
proof -
  have s: "strip ascii_lib (ustr ''   '') = []" by code_simp
  have n: "500 < length (replicate 501 (ustr ''http://a.com''))" by simp
  show ?thesis
    using invalid_requests_rejected [of ascii_lib stub_classifier "Some (ustr ''   '')"
        "replicate 501 (ustr ''http://a.com'')"] s n
    by simp
qed

section \<open>Batches\<close>

lemma bind_exn_Inr:
  "bind_exn m g = Inr y \<longleftrightarrow> (\<exists>x. m = Inr x \<and> g x = Inr y)"
  by (cases m) (simp_all add: bind_exn_def)

lemma inverse_transform_member:
  "inverse_transform C i = Inr c \<Longrightarrow> c \<in> set (le_classes C)"
  by (auto simp: inverse_transform_def split: if_splits)

lemma bulk_entry_Inr:
  assumes "bulk_entry L C url = Inr r"
  shows "r_url r = url" and "r_prediction r \<in> set (le_classes C)"
proof -
  from assms obtain features prediction probs pred_class m where
    i: "inverse_transform C prediction = Inr pred_class" and
    r: "r = \<lparr> r_url = url, r_prediction = pred_class,
              r_confidence = py_round (float_mul m 100) 1,
              r_probabilities = dict_of (zip (le_classes C) (map (\<lambda>p. py_round p 4) probs)) \<rparr>"
    unfolding bulk_entry_def bind_exn_Inr by auto
  show "r_url r = url" unfolding r by simp
  show "r_prediction r \<in> set (le_classes C)"
    unfolding r using inverse_transform_member [OF i] by simp
qed

lemma surviving_urls_Cons:
  "surviving_urls L (u # us) =
     (if strip L u = [] then surviving_urls L us else strip L u # surviving_urls L us)"
  by (simp add: surviving_urls_def)

lemma bulk_loop_success:
  assumes "\<forall>u \<in> set (surviving_urls L us). \<exists>r. bulk_entry L C u = Inr r"
  shows "bulk_loop L C us results tr =
           (Inr (results @ map (\<lambda>u. projr (bulk_entry L C u)) (surviving_urls L us)),
            tr @ surviving_urls L us)"
  using assms
proof (induction us arbitrary: results tr)
  case Nil
  show ?case by (simp add: surviving_urls_def)
next
  case (Cons u us)
  show ?case
  proof (cases "strip L u = []")
    case True
    with Cons.prems have "\<forall>u \<in> set (surviving_urls L us). \<exists>r. bulk_entry L C u = Inr r"
      by (simp add: surviving_urls_Cons)
    from Cons.IH [OF this] True show ?thesis
      by (simp add: surviving_urls_Cons)
  next
    case False
    with Cons.prems obtain r where r: "bulk_entry L C (strip L u) = Inr r"
      by (auto simp: surviving_urls_Cons)
    from False Cons.prems have "\<forall>u \<in> set (surviving_urls L us). \<exists>r. bulk_entry L C u = Inr r"
      by (simp add: surviving_urls_Cons)
    from Cons.IH [OF this] False r show ?thesis
      by (simp add: surviving_urls_Cons)
  qed
qed

lemma bulk_loop_results:
  assumes "bulk_loop L C us results tr = (Inr rs, tr')"
    and "\<forall>r \<in> set results. r_prediction r \<in> set (le_classes C)"
  shows "\<forall>r \<in> set rs. r_prediction r \<in> set (le_classes C)"
  using assms
proof (induction us arbitrary: results tr)
  case Nil
  then show ?case by simp
next
  case (Cons u us)
  show ?case
  proof (cases "strip L u = []")
    case True
    with Cons.prems(1) have "bulk_loop L C us results tr = (Inr rs, tr')" by simp
    from Cons.IH [OF this Cons.prems(2)] show ?thesis .
  next
    case False
    show ?thesis
    proof (cases "bulk_entry L C (strip L u)")
      case (Inl e)
      with False Cons.prems(1) show ?thesis by simp
    next
      case (Inr r)
      with False Cons.prems(1)
      have l: "bulk_loop L C us (results @ [r]) (tr @ [strip L u]) = (Inr rs, tr')" by simp
      have "\<forall>x \<in> set (results @ [r]). r_prediction x \<in> set (le_classes C)"
        using Cons.prems(2) bulk_entry_Inr(2) [OF Inr] by simp
      from Cons.IH [OF l this] show ?thesis .
    qed
  qed
qed

subsection \<open>The summary\<close>

lemma foldl_update_step:
  "foldl (\<lambda>d (k, v). AList.update k v d) acc ((k, v) # ps)
   = foldl (\<lambda>d (k, v). AList.update k v d) (AList.update k v acc) ps"
  by simp

lemma foldl_update_keys:
  "fst ` set (foldl (\<lambda>d (k, v). AList.update k v d) acc ps) = fst ` set acc \<union> fst ` set ps"
proof (induction ps arbitrary: acc)
  case Nil
  show ?case by simp
next
  case (Cons p ps)
  obtain k v where p: "p = (k, v)" by (cases p)
  have "fst ` set (foldl (\<lambda>d (k, v). AList.update k v d) acc (p # ps))
        = fst ` set (AList.update k v acc) \<union> fst ` set ps"
    unfolding p foldl_update_step by (rule Cons.IH)
  also have "\<dots> = ({k} \<union> fst ` set acc) \<union> fst ` set ps"
    by (simp only: dom_update)
  also have "\<dots> = fst ` set acc \<union> fst ` set (p # ps)"
    unfolding p by (simp only: list.set image_insert fst_conv) blast
  finally show ?case .
qed

lemma foldl_update_distinct:
  "distinct (map fst acc) \<Longrightarrow> distinct (map fst (foldl (\<lambda>d (k, v). AList.update k v d) acc ps))"
proof (induction ps arbitrary: acc)
  case Nil
  then show ?case by simp
next
  case (Cons p ps)
  obtain k v where p: "p = (k, v)" by (cases p)
  have "distinct (map fst (AList.update k v acc))"
    using Cons.prems by (rule distinct_update)
  then have "distinct (map fst (foldl (\<lambda>d (k, v). AList.update k v d) (AList.update k v acc) ps))"
    by (rule Cons.IH)
  then show ?case unfolding p foldl_update_step .
qed

lemma foldl_update_values:
  assumes "\<forall>k v. map_of acc k = Some v \<longrightarrow> v = f k"
  shows "\<forall>k v. map_of (foldl (\<lambda>d (k, v). AList.update k v d) acc (map (\<lambda>c. (c, f c)) cs)) k = Some v
               \<longrightarrow> v = f k"
  using assms
proof (induction cs arbitrary: acc)
  case Nil
  then show ?case by simp
next
  case (Cons c cs)
  have "\<forall>k v. map_of (AList.update c (f c) acc) k = Some v \<longrightarrow> v = f k"
  proof (intro allI impI)
    fix k v
    assume h: "map_of (AList.update c (f c) acc) k = Some v"
    show "v = f k"
    proof (cases "k = c")
      case True
      with h show ?thesis by (simp add: update_conv')
    next
      case False
      with h have "map_of acc k = Some v" by (simp add: update_conv')
      with Cons.prems show ?thesis by blast
    qed
  qed
  then have "\<forall>k v. map_of (foldl (\<lambda>d (k, v). AList.update k v d) (AList.update c (f c) acc)
               (map (\<lambda>c. (c, f c)) cs)) k = Some v \<longrightarrow> v = f k"
    by (rule Cons.IH)
  then show ?case
    unfolding list.map foldl_update_step .
qed

lemma dict_of_keys: "fst ` set (dict_of ps) = fst ` set ps"
  by (simp add: dict_of_def foldl_update_keys)

lemma dict_of_distinct: "distinct (map fst (dict_of ps))"
  by (simp add: dict_of_def foldl_update_distinct)

lemma dict_of_tabulate:
  "map_of (dict_of (map (\<lambda>c. (c, f c)) cs)) k = (if k \<in> set cs then Some (f k) else None)"
proof (cases "k \<in> set cs")
  case True
  let ?d = "dict_of (map (\<lambda>c. (c, f c)) cs)"
  have keys: "fst ` set ?d = set cs"
    unfolding dict_of_keys by (simp add: image_image)
  with True have "k \<in> fst ` set ?d" by simp
  then obtain v where "(k, v) \<in> set ?d" by force
  then have v: "map_of ?d k = Some v"
    using dict_of_distinct [of "map (\<lambda>c. (c, f c)) cs"] by simp
  have "\<forall>k v. map_of ?d k = Some v \<longrightarrow> v = f k"
    unfolding dict_of_def by (rule foldl_update_values) simp
  with v have "v = f k" by blast
  with v True show ?thesis by simp
next
  case False
  let ?d = "dict_of (map (\<lambda>c. (c, f c)) cs)"
  have keys: "fst ` set ?d = set cs"
    unfolding dict_of_keys by (simp add: image_image)
  with False have "k \<notin> fst ` set ?d" by simp
  then have "map_of ?d k = None"
    by (simp add: map_of_eq_None_iff)
  with False show ?thesis by simp
qed

lemma dict_of_sum:
  "sum_list (map snd (dict_of (map (\<lambda>c. (c, f c)) cs))) = (\<Sum>c \<in> set cs. (f c :: int))"
proof -
  define d where "d = dict_of (map (\<lambda>c. (c, f c)) cs)"
  have dist: "distinct (map fst d)"
    unfolding d_def by (rule dict_of_distinct)
  have keys: "set (map fst d) = set cs"
    unfolding d_def set_map dict_of_keys by (simp add: image_image)
  have vals: "snd x = f (fst x)" if "x \<in> set d" for x
  proof -
    obtain k v where x: "x = (k, v)" by (cases x)
    with that have "map_of d k = Some v" using dist by simp
    then have "(if k \<in> set cs then Some (f k) else None) = Some v"
      unfolding d_def by (simp only: dict_of_tabulate)
    then have "v = f k" by (simp split: if_splits)
    then show ?thesis unfolding x by simp
  qed
  have "map snd d = map (\<lambda>x. f (fst x)) d"
    by (rule map_cong [OF refl]) (rule vals)
  also have "\<dots> = map f (map fst d)"
    by (simp only: map_map comp_def)
  finally have "sum_list (map snd d) = sum_list (map f (map fst d))"
    by (rule arg_cong)
  also have "\<dots> = sum f (set (map fst d))"
    using dist by (rule sum_list_distinct_conv_sum_set)
  finally have "sum_list (map snd d) = sum f (set cs)"
    unfolding keys .
  then show ?thesis
    unfolding d_def .
qed

lemma count_by_label:
  assumes "finite S" "\<forall>r \<in> set rs. p r \<in> S"
  shows "(\<Sum>c \<in> S. int (length (filter (\<lambda>r. p r = c) rs))) = int (length rs)"
  using assms(2)
proof (induction rs)
  case Nil
  show ?case by simp
next
  case (Cons r rs)
  have "(\<Sum>c \<in> S. int (length (filter (\<lambda>r. p r = c) (r # rs))))
        = (\<Sum>c \<in> S. (if p r = c then 1 else 0) + int (length (filter (\<lambda>r. p r = c) rs)))"
    by (intro sum.cong) auto
  also have "\<dots> = (\<Sum>c \<in> S. (if p r = c then 1 else 0))
                   + (\<Sum>c \<in> S. int (length (filter (\<lambda>r. p r = c) rs)))"
    by (simp add: sum.distrib)
  also have "(\<Sum>c \<in> S. (if p r = c then 1 else 0 :: int)) = (if p r \<in> S then 1 else 0)"
    using assms(1) by (rule sum.delta')
  also have "\<dots> = 1" using Cons.prems by simp
  also have "(\<Sum>c \<in> S. int (length (filter (\<lambda>r. p r = c) rs))) = int (length rs)"
    using Cons by simp
  finally show ?case by simp
qed

lemma bulk_loop_failure:
  assumes "\<exists>u \<in> set (surviving_urls L us). \<exists>e. bulk_entry L C u = Inl e"
  shows "\<exists>e tr'. bulk_loop L C us results tr = (Inl e, tr')"
  using assms
proof (induction us arbitrary: results tr)
  case Nil
  then show ?case by (simp add: surviving_urls_def)
next
  case (Cons u us)
  show ?case
  proof (cases "strip L u = []")
    case True
    with Cons.prems have "\<exists>u \<in> set (surviving_urls L us). \<exists>e. bulk_entry L C u = Inl e"
      by (simp add: surviving_urls_Cons)
    from Cons.IH [OF this, of results tr] True show ?thesis by simp
  next
    case False
    show ?thesis
    proof (cases "bulk_entry L C (strip L u)")
      case (Inl e)
      with False show ?thesis by simp
    next
      case (Inr r)
      with False Cons.prems
      have "\<exists>u \<in> set (surviving_urls L us). \<exists>e. bulk_entry L C u = Inl e"
        by (auto simp: surviving_urls_Cons)
      from Cons.IH [OF this, of "results @ [r]" "tr @ [strip L u]"] False Inr
      show ?thesis by simp
    qed
  qed
qed

lemma summary_of_props:
  "fst ` set (summary_of C results) = set (le_classes C)"
  "distinct (map fst (summary_of C results))"
  "map_of (summary_of C results) c =
     (if c \<in> set (le_classes C)
      then Some (int (length (filter (\<lambda>r. r_prediction r = c) results))) else None)"
  "sum_list (map snd (summary_of C results))
     = (\<Sum>c \<in> set (le_classes C). int (length (filter (\<lambda>r. r_prediction r = c) results)))"
proof -
  show "fst ` set (summary_of C results) = set (le_classes C)"
    unfolding summary_of_def dict_of_keys by (simp add: image_image)
  show "distinct (map fst (summary_of C results))"
    unfolding summary_of_def by (rule dict_of_distinct)
  show "map_of (summary_of C results) c =
     (if c \<in> set (le_classes C)
      then Some (int (length (filter (\<lambda>r. r_prediction r = c) results))) else None)"
    unfolding summary_of_def by (rule dict_of_tabulate)
  show "sum_list (map snd (summary_of C results))
     = (\<Sum>c \<in> set (le_classes C). int (length (filter (\<lambda>r. r_prediction r = c) results)))"
    unfolding summary_of_def by (rule dict_of_sum)
qed

lemma bulk_valid:
  assumes "urls \<noteq> []" "length urls \<le> 500"
  shows "bulk L C (Some urls) =
    (case bulk_loop L C urls [] [] of
       (Inl e, tr) \<Rightarrow> (Raised e, tr)
     | (Inr results, tr) \<Rightarrow>
         (Ok200 \<lparr> b_results = results, b_summary = summary_of C results,
                  b_total = int (length results) \<rparr>, tr))"
  using assms by (simp add: bulk_def)

lemma bulk_batch_general:
  assumes "urls \<noteq> []" "length urls \<le> 500"
    and "\<forall>u \<in> set (surviving_urls L urls). \<exists>r. bulk_entry L C u = Inr r"
  shows "\<exists>resp. bulk L C (Some urls) = (Ok200 resp, surviving_urls L urls)
     \<and> map r_url (b_results resp) = surviving_urls L urls
     \<and> map Inr (b_results resp) = map (bulk_entry L C) (surviving_urls L urls)
     \<and> b_total resp = int (length (b_results resp))
     \<and> b_total resp = int (length (surviving_urls L urls))
     \<and> fst ` set (b_summary resp) = set (le_classes C)
     \<and> distinct (map fst (b_summary resp))
     \<and> (\<forall>c \<in> set (le_classes C). map_of (b_summary resp) c
            = Some (int (length (filter (\<lambda>r. r_prediction r = c) (b_results resp)))))
     \<and> (\<forall>c \<in> set (le_classes C). (\<forall>r \<in> set (b_results resp). r_prediction r \<noteq> c)
            \<longrightarrow> map_of (b_summary resp) c = Some 0)"
proof -
  define results where "results = map (\<lambda>u. projr (bulk_entry L C u)) (surviving_urls L urls)"
  define resp where "resp = \<lparr> b_results = results, b_summary = summary_of C results,
                               b_total = int (length results) \<rparr>"
  have loop: "bulk_loop L C urls [] [] = (Inr results, surviving_urls L urls)"
    unfolding results_def using bulk_loop_success [OF assms(3), of "[]" "[]"] by simp
  have b: "bulk L C (Some urls) = (Ok200 resp, surviving_urls L urls)"
    unfolding bulk_valid [OF assms(1,2)] loop resp_def by simp
  have each: "Inr (projr (bulk_entry L C u)) = bulk_entry L C u"
    if "u \<in> set (surviving_urls L urls)" for u
    using assms(3) that by auto
  have inr: "map Inr (b_results resp) = map (bulk_entry L C) (surviving_urls L urls)"
    unfolding resp_def results_def using each by simp
  have url: "r_url (projr (bulk_entry L C u)) = u" if "u \<in> set (surviving_urls L urls)" for u
  proof -
    from assms(3) that obtain r where r: "bulk_entry L C u = Inr r" by blast
    show ?thesis unfolding r using bulk_entry_Inr(1) [OF r] by simp
  qed
  have urls: "map r_url (b_results resp) = surviving_urls L urls"
    unfolding resp_def results_def using url by (simp add: map_idI)
  have tot: "b_total resp = int (length (b_results resp))"
    "b_total resp = int (length (surviving_urls L urls))"
    unfolding resp_def results_def by simp_all
  have keys: "fst ` set (b_summary resp) = set (le_classes C)"
    "distinct (map fst (b_summary resp))"
    unfolding resp_def by (simp_all add: summary_of_props(1,2))
  have cnt: "\<forall>c \<in> set (le_classes C). map_of (b_summary resp) c
            = Some (int (length (filter (\<lambda>r. r_prediction r = c) (b_results resp))))"
    unfolding resp_def by (simp add: summary_of_props(3))
  have zero: "\<forall>c \<in> set (le_classes C). (\<forall>r \<in> set (b_results resp). r_prediction r \<noteq> c)
            \<longrightarrow> map_of (b_summary resp) c = Some 0"
  proof (intro ballI impI)
    fix c assume c: "c \<in> set (le_classes C)"
      and n: "\<forall>r \<in> set (b_results resp). r_prediction r \<noteq> c"
    from n have "filter (\<lambda>r. r_prediction r = c) (b_results resp) = []"
      by (simp add: filter_empty_conv)
    with cnt c show "map_of (b_summary resp) c = Some 0" by simp
  qed
  show ?thesis
    using b urls inr tot keys cnt zero by blast
qed

text \<open>
  Claim C7. For a batch that is not empty and has at most 500 entries, and a classifier
  that raises on none of the surviving URLs (when it raises on one of them, the exception
  is the outcome of the request): \<open>bulk\<close> answers 200; the blank entries
  leave no trace; the results are, in input order, exactly what the loop body gives for
  each surviving URL on its own, one result per URL; \<open>total\<close> is the number of results;
  the keys of \<open>summary\<close> are all the classes of the label encoder, each once, and each
  class is mapped to the number of results predicted as that class, which is 0 for a
  class that no result has. In the batch \<open>["", "  ", "http://a.com"]\<close> only
  \<open>http://a.com\<close> survives, and \<open>total\<close> is 1.
\<close>

theorem bulk_valid_batch:
  "(urls \<noteq> [] \<and> length urls \<le> 500
      \<and> (\<forall>u \<in> set (surviving_urls L urls). \<exists>r. bulk_entry L C u = Inr r)
    \<longrightarrow> (\<exists>resp. bulk L C (Some urls) = (Ok200 resp, surviving_urls L urls)
     \<and> map r_url (b_results resp) = surviving_urls L urls
     \<and> map Inr (b_results resp) = map (bulk_entry L C) (surviving_urls L urls)
     \<and> b_total resp = int (length (b_results resp))
     \<and> b_total resp = int (length (surviving_urls L urls))
     \<and> fst ` set (b_summary resp) = set (le_classes C)
     \<and> distinct (map fst (b_summary resp))
     \<and> (\<forall>c \<in> set (le_classes C). map_of (b_summary resp) c
            = Some (int (length (filter (\<lambda>r. r_prediction r = c) (b_results resp)))))
     \<and> (\<forall>c \<in> set (le_classes C). (\<forall>r \<in> set (b_results resp). r_prediction r \<noteq> c)
            \<longrightarrow> map_of (b_summary resp) c = Some 0)))
   \<and> (urls \<noteq> [] \<and> length urls \<le> 500
      \<and> (\<exists>u \<in> set (surviving_urls L urls). \<exists>e. bulk_entry L C u = Inl e)
    \<longrightarrow> (\<exists>e tr. bulk L C (Some urls) = (Raised e, tr)))
   \<and> surviving_urls L [ustr '''', ustr ''  '', ustr ''http://a.com''] = [ustr ''http://a.com'']
   \<and> ((\<exists>r. bulk_entry L C (ustr ''http://a.com'') = Inr r)
    \<longrightarrow> (\<exists>resp. bulk L C (Some [ustr '''', ustr ''  '', ustr ''http://a.com''])
                   = (Ok200 resp, [ustr ''http://a.com''])
          \<and> map r_url (b_results resp) = [ustr ''http://a.com''] \<and> b_total resp = 1))"
proof (intro conjI impI)
  assume "urls \<noteq> [] \<and> length urls \<le> 500
      \<and> (\<forall>u \<in> set (surviving_urls L urls). \<exists>r. bulk_entry L C u = Inr r)"
  then show "\<exists>resp. bulk L C (Some urls) = (Ok200 resp, surviving_urls L urls)
     \<and> map r_url (b_results resp) = surviving_urls L urls
     \<and> map Inr (b_results resp) = map (bulk_entry L C) (surviving_urls L urls)
     \<and> b_total resp = int (length (b_results resp))
     \<and> b_total resp = int (length (surviving_urls L urls))
     \<and> fst ` set (b_summary resp) = set (le_classes C)
     \<and> distinct (map fst (b_summary resp))
     \<and> (\<forall>c \<in> set (le_classes C). map_of (b_summary resp) c
            = Some (int (length (filter (\<lambda>r. r_prediction r = c) (b_results resp)))))
     \<and> (\<forall>c \<in> set (le_classes C). (\<forall>r \<in> set (b_results resp). r_prediction r \<noteq> c)
            \<longrightarrow> map_of (b_summary resp) c = Some 0)"
    using bulk_batch_general [of urls L C] by blast
next
  assume a: "urls \<noteq> [] \<and> length urls \<le> 500
      \<and> (\<exists>u \<in> set (surviving_urls L urls). \<exists>e. bulk_entry L C u = Inl e)"
  then obtain e tr where "bulk_loop L C urls [] [] = (Inl e, tr)"
    using bulk_loop_failure [of L urls C "[]" "[]"] by blast
  then have "bulk L C (Some urls) = (Raised e, tr)"
    using a by (simp add: bulk_valid)
  then show "\<exists>e tr. bulk L C (Some urls) = (Raised e, tr)" by blast
next
  show s: "surviving_urls L [ustr '''', ustr ''  '', ustr ''http://a.com''] = [ustr ''http://a.com'']"
    by code_simp
  assume e: "\<exists>r. bulk_entry L C (ustr ''http://a.com'') = Inr r"
  have "\<exists>resp. bulk L C (Some [ustr '''', ustr ''  '', ustr ''http://a.com''])
          = (Ok200 resp, surviving_urls L [ustr '''', ustr ''  '', ustr ''http://a.com''])
     \<and> map r_url (b_results resp) = surviving_urls L [ustr '''', ustr ''  '', ustr ''http://a.com'']
     \<and> b_total resp = int (length (surviving_urls L [ustr '''', ustr ''  '', ustr ''http://a.com'']))"
    using bulk_batch_general [of "[ustr '''', ustr ''  '', ustr ''http://a.com'']" L C] e
    unfolding s by auto
  then show "\<exists>resp. bulk L C (Some [ustr '''', ustr ''  '', ustr ''http://a.com''])
                   = (Ok200 resp, [ustr ''http://a.com''])
          \<and> map r_url (b_results resp) = [ustr ''http://a.com''] \<and> b_total resp = 1"
    unfolding s by simp
qed

lemma not_isl_Inr: "\<not> isl x \<Longrightarrow> \<exists>r. x = Inr r"
  by (cases x) auto

lemma stub_entry:
  "\<exists>r. bulk_entry ascii_lib stub_classifier (ustr ''http://a.com'') = Inr r"
proof -
  have "\<not> isl (bulk_entry ascii_lib stub_classifier (ustr ''http://a.com''))"
    by code_simp
  then show ?thesis
    by (cases "bulk_entry ascii_lib stub_classifier (ustr ''http://a.com'')") auto
qed

theorem bulk_valid_batch_witness:
  "\<exists>resp. bulk ascii_lib stub_classifier (Some [ustr '''', ustr ''  '', ustr ''http://a.com''])
            = (Ok200 resp, [ustr ''http://a.com''])
     \<and> map r_url (b_results resp) = [ustr ''http://a.com''] \<and> b_total resp = 1
     \<and> fst ` set (b_summary resp) = {ustr ''benign'', ustr ''phishing''}"
proof -
  let ?batch = "[ustr '''', ustr ''  '', ustr ''http://a.com'']"
  have s: "surviving_urls ascii_lib ?batch = [ustr ''http://a.com'']"
    by code_simp
  have h: "?batch \<noteq> [] \<and> length ?batch \<le> 500
      \<and> (\<forall>u \<in> set (surviving_urls ascii_lib ?batch). \<exists>r. bulk_entry ascii_lib stub_classifier u = Inr r)"
    unfolding s using stub_entry by simp
  have c: "set (le_classes stub_classifier) = {ustr ''benign'', ustr ''phishing''}"
    by (simp add: stub_classifier_def)
  from bulk_valid_batch [of ?batch ascii_lib stub_classifier] h
  obtain resp where
    "bulk ascii_lib stub_classifier (Some ?batch) = (Ok200 resp, surviving_urls ascii_lib ?batch)"
    "map r_url (b_results resp) = surviving_urls ascii_lib ?batch"
    "b_total resp = int (length (surviving_urls ascii_lib ?batch))"
    "fst ` set (b_summary resp) = set (le_classes stub_classifier)"
    by blast
  then show ?thesis
    unfolding s c by simp
qed

text \<open>
  Claim C10. In every 200 response of \<open>bulk\<close> the predicted label of each result is
  one of the classes of the label encoder, and the counts of the summary, whose keys are
  those classes, each once, add up to \<open>total\<close>.
\<close>

theorem bulk_summary_total:
  assumes "bulk L C data_urls = (Ok200 resp, tr)"
  shows "(\<forall>r \<in> set (b_results resp). r_prediction r \<in> set (le_classes C))
     \<and> sum_list (map snd (b_summary resp)) = b_total resp
     \<and> distinct (map fst (b_summary resp))
     \<and> fst ` set (b_summary resp) = set (le_classes C)"
proof -
  obtain urls where u: "data_urls = Some urls" "urls \<noteq> []" "length urls \<le> 500"
    using assms by (cases data_urls) (auto simp: bulk_def split: if_splits)
  obtain out tr' where l: "bulk_loop L C urls [] [] = (out, tr')"
    by (cases "bulk_loop L C urls [] []")
  from assms obtain results where r: "out = Inr results"
      and resp: "resp = \<lparr> b_results = results, b_summary = summary_of C results,
                           b_total = int (length results) \<rparr>"
    unfolding u(1) bulk_valid [OF u(2,3)] l by (cases out) auto
  have mem: "\<forall>x \<in> set results. r_prediction x \<in> set (le_classes C)"
    using bulk_loop_results [of L C urls "[]" "[]" results tr'] l r by simp
  have "sum_list (map snd (summary_of C results)) = int (length results)"
    unfolding summary_of_props(4) using mem by (intro count_by_label) simp_all
  then show ?thesis
    unfolding resp using mem by (simp add: summary_of_props(1,2))
qed

theorem bulk_summary_total_witness:
  "\<exists>resp tr. bulk ascii_lib stub_classifier (Some [ustr ''http://a.com'', ustr ''paypal.example.com''])
               = (Ok200 resp, tr)
     \<and> sum_list (map snd (b_summary resp)) = b_total resp \<and> b_total resp = 2"
proof -
  have e: "\<not> isl (bulk_entry ascii_lib stub_classifier (ustr ''http://a.com''))"
    "\<not> isl (bulk_entry ascii_lib stub_classifier (ustr ''paypal.example.com''))"
    by code_simp+
  have s: "surviving_urls ascii_lib [ustr ''http://a.com'', ustr ''paypal.example.com'']
           = [ustr ''http://a.com'', ustr ''paypal.example.com'']"
    by code_simp
  have ok: "\<forall>u \<in> set (surviving_urls ascii_lib [ustr ''http://a.com'', ustr ''paypal.example.com'']).
             \<exists>r. bulk_entry ascii_lib stub_classifier u = Inr r"
    unfolding s using not_isl_Inr [OF e(1)] not_isl_Inr [OF e(2)] by simp
  obtain resp where resp:
    "bulk ascii_lib stub_classifier (Some [ustr ''http://a.com'', ustr ''paypal.example.com''])
       = (Ok200 resp, surviving_urls ascii_lib [ustr ''http://a.com'', ustr ''paypal.example.com''])"
    "b_total resp = int (length (surviving_urls ascii_lib
        [ustr ''http://a.com'', ustr ''paypal.example.com'']))"
    using bulk_batch_general [OF _ _ ok] by auto
  have "sum_list (map snd (b_summary resp)) = b_total resp"
    using bulk_summary_total [OF resp(1)] by blast
  moreover have "b_total resp = 2" unfolding resp(2) s by simp
  ultimately show ?thesis using resp(1) by blast
qed

end
